theory Spec2Isabelle
  imports
    Complex_Main
    "HOL-Library.Multiset"
    "HOL-Library.Log_Nat"
    "HOL-Library.Product_Lexorder"
    "HOL-Library.List_Lexorder"
    "HOL-Library.Char_ord"
begin

section \<open>The summarizer of posts/text-summarizer.ipynb\<close>

text \<open>
  The notebook defines one function, \<^verbatim>\<open>summarize(text, p, scoring='sum')\<close>, written for
  Python 2.7 (the notebook's kernel). It segments the text, scores every sentence, ranks
  the scores, keeps the first \<^verbatim>\<open>p\<close> of them and joins those sentences in document order.

  Conventions of the embedding:
  \<^item> a finite float is the real number it denotes; the product on line 54 is rounded to
    binary64 as the machine does, and an infinite result is an error when \<^verbatim>\<open>int\<close> meets it;
    a not-a-number distance is \<open>None\<close> in \<open>real option\<close>;
  \<^item> \<^verbatim>\<open>p\<close> keeps its Python type (\<open>PyInt\<close> or \<open>PyFloat\<close>), because a slice bound must be an
    integer;
  \<^item> every exception that a line of the function can raise is a value of \<open>error\<close>;
  \<^item> what the libraries compute from natural language (sentence boundaries, tokens and
    stop words, tf-idf weights, the table of distance metrics) is a parameter.
\<close>

subsection \<open>Values and errors\<close>

datatype number = PyInt int | PyFloat real

text \<open>
  \<open>OverflowError\<close>: raised on line 54, by \<^verbatim>\<open>int\<close> on an infinite float, or by the conversion
  of an integer too large for a float.
  \<open>EmptyVocabulary\<close>: the \<^verbatim>\<open>ValueError\<close> ("empty vocabulary; perhaps the documents only
  contain stop words") of \<^verbatim>\<open>fit_transform\<close>.
  \<open>UnknownMetric\<close>: the \<^verbatim>\<open>ValueError\<close> ("Unknown Distance Metric") of \<^verbatim>\<open>pdist\<close>.
  \<open>MetricError\<close>: the exception of \<^verbatim>\<open>pdist\<close> when a metric it knows cannot be computed on
  the matrix (\<^verbatim>\<open>mahalanobis\<close> inverts the covariance matrix of the rows, which is singular
  when there are no more sentences than terms).
  \<open>SliceIndexNotInt\<close>: the \<^verbatim>\<open>TypeError\<close> ("slice indices must be integers or None or have
  an __index__ method") of \<^verbatim>\<open>top_sentences[:p]\<close> when \<^verbatim>\<open>p\<close> is a float.
  \<open>NanScore\<close> is not an exception: it marks a not-a-number key reaching \<^verbatim>\<open>sorted\<close>, where the
  order CPython produces depends on the internals of its sort and is not modelled.
  Lemma \<open>float_scores_distance\<close> shows that \<^verbatim>\<open>summarize\<close> never gets there.
\<close>

datatype error =
  OverflowError | EmptyVocabulary | UnknownMetric | MetricError | SliceIndexNotInt | NanScore

subsection \<open>Binary64 arithmetic\<close>

text \<open>
  A binary64 value is an integer multiple of \<open>2 ^ -1074\<close> with at most 53 significant
  bits, below \<open>2 ^ 1024\<close> in magnitude. \<open>binary64 x\<close> rounds the real \<open>x\<close> to the nearest
  such value, ties to the even significand, as the multiplication of two floats and the
  conversion of an integer do; \<open>None\<close> is an infinite result (or, for a conversion, the
  integer that is too large).

  The rounding works on \<open>X = \<bar>x\<bar> * 2 ^ tiny\<close>: \<open>ulp_of X\<close> is the weight of the last of
  the 53 leading bits of \<open>X\<close>, \<open>rounded X\<close> the nearest multiple of it.
\<close>

definition round_half_even :: "real \<Rightarrow> int" where
  "round_half_even x =
     (let n = \<lfloor>x\<rfloor>; d = x - of_int n
      in if d < 1 / 2 then n else if 1 / 2 < d then n + 1
         else if even n then n else n + 1)"

definition tiny :: nat where
  "tiny = 1074"

definition huge :: nat where
  "huge = 2098"

definition ulp_of :: "real \<Rightarrow> int" where
  "ulp_of X = (let b = bitlen \<lfloor>X\<rfloor> in if b \<le> 53 then 1 else 2 ^ nat (b - 53))"

definition rounded :: "real \<Rightarrow> int" where
  "rounded X = round_half_even (X / of_int (ulp_of X)) * ulp_of X"

definition binary64 :: "real \<Rightarrow> real option" where
  "binary64 x =
     (let m = rounded (\<bar>x\<bar> * 2 ^ tiny)
      in if 2 ^ huge \<le> m then None else Some (sgn x * of_int m / 2 ^ tiny))"

text \<open>The binary64 values that the literals 0.4, 0.3, 0.1 and 0.05 and the quotient 1/6 denote.\<close>

definition float_0_4 :: real where
  "float_0_4 = 3602879701896397 / 2 ^ 53"

definition float_0_3 :: real where
  "float_0_3 = 5404319552844595 / 2 ^ 54"

definition float_0_1 :: real where
  "float_0_1 = 3602879701896397 / 2 ^ 55"

definition float_0_05 :: real where
  "float_0_05 = 3602879701896397 / 2 ^ 56"

definition float_1_6 :: real where
  "float_1_6 = 6004799503160661 / 2 ^ 55"

subsection \<open>The libraries\<close>

text \<open>
  \<open>analyze\<close>: the analyzer shared by \<^verbatim>\<open>TfidfVectorizer(stop_words='english')\<close> and
  \<^verbatim>\<open>CountVectorizer(stop_words='english')\<close>: the terms of a sentence that survive
  tokenization and stop-word removal, with repetitions.
  \<open>tfidf_weight sents i t\<close>: the entry of the fitted tf-idf matrix for sentence \<open>i\<close> and
  term \<open>t\<close>.
  \<open>metric name\<close>: what \<^verbatim>\<open>pdist\<close> does for the metric \<open>name\<close>: \<open>None\<close> when it knows no such
  metric; otherwise a function of the matrix, which is \<open>None\<close> when the metric cannot be
  computed on it and else the distance between two rows. A distance is \<open>None\<close> when it is
  not a number.
\<close>

record lib =
  analyze :: "string \<Rightarrow> string list"
  tfidf_weight :: "string list \<Rightarrow> nat \<Rightarrow> string \<Rightarrow> real"
  metric ::
    "string \<Rightarrow> (real list list \<Rightarrow> (real list \<Rightarrow> real list \<Rightarrow> real option) option) option"

definition vocabulary :: "lib \<Rightarrow> string list \<Rightarrow> string list" where
  "vocabulary L sents = sort (remdups (concat (map (analyze L) sents)))"

text \<open>
  \<^verbatim>\<open>vec.fit_transform(str(x) for x in blob.sentences)\<close>: one row per sentence, one column
  per vocabulary term; an empty vocabulary raises.
\<close>

definition fit_transform ::
  "lib \<Rightarrow> (nat \<Rightarrow> string \<Rightarrow> real) \<Rightarrow> string list \<Rightarrow> error + real list list" where
  "fit_transform L w sents =
     (let vocab = vocabulary L sents
      in if vocab = [] then Inl EmptyVocabulary
         else Inr (map (\<lambda>i. map (w i) vocab) [0..<length sents]))"

definition tfidf_fit_transform :: "lib \<Rightarrow> string list \<Rightarrow> error + real list list" where
  "tfidf_fit_transform L sents = fit_transform L (tfidf_weight L sents) sents"

definition count_fit_transform :: "lib \<Rightarrow> string list \<Rightarrow> error + real list list" where
  "count_fit_transform L sents =
     fit_transform L (\<lambda>i t. real (count_list (analyze L (sents ! i)) t)) sents"

text \<open>
  \<^verbatim>\<open>squareform(pdist(dtm, scoring))\<close> once the metric has given its distance \<open>d\<close>: \<^verbatim>\<open>pdist\<close>
  computes \<open>d (X ! i) (X ! j)\<close> for \<open>i < j\<close>, \<^verbatim>\<open>squareform\<close> mirrors them around a diagonal of
  zeros (and turns the empty vector of a single row into the 1 x 1 zero matrix).
\<close>

definition squareform_pdist ::
  "(real list \<Rightarrow> real list \<Rightarrow> real option) \<Rightarrow> real list list \<Rightarrow> real option list list" where
  "squareform_pdist d X =
     map (\<lambda>i. map (\<lambda>j. if i = j then Some 0 else d (X ! min i j) (X ! max i j))
                   [0..<length X])
         [0..<length X]"

fun defined :: "real option list \<Rightarrow> real list" where
  "defined [] = []"
| "defined (None # c) = defined c"
| "defined (Some x # c) = x # defined c"

text \<open>\<^verbatim>\<open>np.nanmean(c)\<close>: the mean of the entries that are numbers, not-a-number if there is none.\<close>

definition nanmean :: "real option list \<Rightarrow> real option" where
  "nanmean c =
     (let ds = defined c
      in if ds = [] then None else Some (sum_list ds / real (length ds)))"

subsection \<open>Python builtins\<close>

text \<open>
  Python 2: \<^verbatim>\<open>round\<close> returns a float and rounds halves away from zero; \<^verbatim>\<open>int\<close> truncates
  towards zero.
\<close>

definition py_round :: "real \<Rightarrow> real" where
  "py_round x = (if 0 \<le> x then of_int \<lfloor>x + 1 / 2\<rfloor> else - of_int \<lfloor>- x + 1 / 2\<rfloor>)"

definition py_int :: "real \<Rightarrow> int" where
  "py_int x = (if 0 \<le> x then \<lfloor>x\<rfloor> else \<lceil>x\<rceil>)"

text \<open>
  \<^verbatim>\<open>xs[:p]\<close>: a float bound raises; a negative integer bound counts from the end; a bound
  beyond either end is cut to that end.
\<close>

definition slice_to :: "'a list \<Rightarrow> number \<Rightarrow> error + 'a list" where
  "slice_to xs p =
     (case p of
        PyFloat f \<Rightarrow> Inl SliceIndexNotInt
      | PyInt k \<Rightarrow>
          Inr (if 0 \<le> k then take (nat k) xs else take (nat (int (length xs) + k)) xs))"

text \<open>
  \<^verbatim>\<open>sorted(scores, key=lambda x: x[1], reverse=True)\<close>: Python's sort is stable, also with
  \<^verbatim>\<open>reverse=True\<close> (entries with equal keys keep their order), so it is the stable sort
  by the negated key. \<open>sort_key\<close> is insertion sort, which is stable.
\<close>

definition sorted_by_score_reverse :: "(nat \<times> real) list \<Rightarrow> (nat \<times> real) list" where
  "sorted_by_score_reverse scores = sort_key (\<lambda>x. - snd x) scores"

subsection \<open>summarize\<close>

text \<open>
  Lines 53-54: \<^verbatim>\<open>if p < 1: p = int(round(p*len(blob.sentences)))\<close>.
  For a float \<^verbatim>\<open>p\<close> the length is converted to a float and the product is rounded to
  binary64; for an integer \<^verbatim>\<open>p\<close> the product is exact and \<^verbatim>\<open>round\<close> converts it to a float.
  An infinite product passes through \<^verbatim>\<open>round\<close> and makes \<^verbatim>\<open>int\<close> raise.
\<close>

definition resolve :: "number \<Rightarrow> nat \<Rightarrow> error + number" where
  "resolve p n =
     (case p of
        PyInt k \<Rightarrow>
          if k < 1 then
            (case binary64 (of_int (k * int n)) of
               None \<Rightarrow> Inl OverflowError
             | Some y \<Rightarrow> Inr (PyInt (py_int (py_round y))))
          else Inr (PyInt k)
      | PyFloat f \<Rightarrow>
          if f < 1 then
            (case binary64 (real n) of
               None \<Rightarrow> Inl OverflowError
             | Some y \<Rightarrow>
                 (case binary64 (f * y) of
                    None \<Rightarrow> Inl OverflowError
                  | Some x \<Rightarrow> Inr (PyInt (py_int (py_round x)))))
          else Inr (PyFloat f))"

text \<open>Lines 65-66: \<^verbatim>\<open>for i, c in enumerate(dtm): scores.append((i, c.sum()))\<close>.\<close>

definition score_sum :: "real list list \<Rightarrow> (nat \<times> real) list" where
  "score_sum dtm = map (\<lambda>(i, c). (i, sum_list c)) (List.enumerate 0 dtm)"

text \<open>Lines 81-82: \<^verbatim>\<open>for i, c in enumerate(y): scores.append((i, np.nanmean(c)))\<close>.\<close>

definition score_distance :: "real option list list \<Rightarrow> (nat \<times> real option) list" where
  "score_distance y = map (\<lambda>(i, c). (i, nanmean c)) (List.enumerate 0 y)"

fun float_scores :: "(nat \<times> real option) list \<Rightarrow> (nat \<times> real) list option" where
  "float_scores [] = Some []"
| "float_scores ((i, None) # r) = None"
| "float_scores ((i, Some s) # r) = map_option ((#) (i, s)) (float_scores r)"

text \<open>Lines 57-82: the scores, or the exception of the vectorizer or of \<^verbatim>\<open>pdist\<close>.\<close>

definition scores_of :: "lib \<Rightarrow> string list \<Rightarrow> string \<Rightarrow> error + (nat \<times> real) list" where
  "scores_of L sents scoring =
     (if scoring = ''sum'' then
        (case tfidf_fit_transform L sents of
           Inl e \<Rightarrow> Inl e
         | Inr dtm \<Rightarrow> Inr (score_sum dtm))
      else
        (case count_fit_transform L sents of
           Inl e \<Rightarrow> Inl e
         | Inr dtm \<Rightarrow>
             (case metric L scoring of
                None \<Rightarrow> Inl UnknownMetric
              | Some m \<Rightarrow>
                  (case m dtm of
                     None \<Rightarrow> Inl MetricError
                   | Some d \<Rightarrow>
                       (case float_scores (score_distance (squareform_pdist d dtm)) of
                          None \<Rightarrow> Inl NanScore
                        | Some scores \<Rightarrow> Inr scores)))))"

text \<open>
  Lines 85-87: \<^verbatim>\<open>top_sentences = sorted(...)\<close>, \<^verbatim>\<open>summary = top_sentences[:p]\<close>,
  \<^verbatim>\<open>summary = sorted(summary)\<close>. The last sort compares the pairs (index, score)
  lexicographically.
\<close>

definition select :: "(nat \<times> real) list \<Rightarrow> number \<Rightarrow> error + (nat \<times> real) list" where
  "select scores p =
     (case slice_to (sorted_by_score_reverse scores) p of
        Inl e \<Rightarrow> Inl e
      | Inr summary \<Rightarrow> Inr (sort summary))"

text \<open>
  The list \<^verbatim>\<open>summary\<close> of the source when the loop of lines 90-91 starts. \<open>sents\<close> is
  \<^verbatim>\<open>blob.sentences\<close>, the segmenter's output for \<^verbatim>\<open>text\<close>. Line 54 runs first.
\<close>

definition summary_entries ::
  "lib \<Rightarrow> string list \<Rightarrow> number \<Rightarrow> string \<Rightarrow> error + (nat \<times> real) list" where
  "summary_entries L sents p scoring =
     (case resolve p (length sents) of
        Inl e \<Rightarrow> Inl e
      | Inr p' \<Rightarrow>
          (case scores_of L sents scoring of
             Inl e \<Rightarrow> Inl e
           | Inr scores \<Rightarrow> select scores p'))"

text \<open>
  Lines 89-92: \<^verbatim>\<open>result = TextBlob('')\<close>, \<^verbatim>\<open>result += blob.sentences[i[0]]\<close> for each entry;
  adding blobs concatenates their raw strings.
\<close>

definition summarize :: "lib \<Rightarrow> string list \<Rightarrow> number \<Rightarrow> string \<Rightarrow> error + string" where
  "summarize L sents p scoring =
     (case summary_entries L sents p scoring of
        Inl e \<Rightarrow> Inl e
      | Inr summary \<Rightarrow> Inr (foldl (\<lambda>result i. result @ sents ! fst i) [] summary))"

subsection \<open>Notions used in the statements\<close>

text \<open>
  \<open>ranks_before a b\<close>: entry \<open>a\<close> has the higher score, or the same score and the lower
  sentence index.
\<close>

definition ranks_before :: "nat \<times> real \<Rightarrow> nat \<times> real \<Rightarrow> bool" where
  "ranks_before a b \<longleftrightarrow> snd b < snd a \<or> (snd a = snd b \<and> fst a < fst b)"

text \<open>
  \<open>sorted_on_score scores ys\<close>: \<open>ys\<close> is a result that a sort of \<open>scores\<close> on the key of line
  85, the score alone, in descending order, may return when it promises nothing about
  entries with equal keys.
\<close>

definition score_not_below :: "nat \<times> real \<Rightarrow> nat \<times> real \<Rightarrow> bool" where
  "score_not_below a b \<longleftrightarrow> snd b \<le> snd a"

definition sorted_on_score :: "(nat \<times> real) list \<Rightarrow> (nat \<times> real) list \<Rightarrow> bool" where
  "sorted_on_score scores ys \<longleftrightarrow> mset ys = mset scores \<and> sorted_wrt score_not_below ys"

text \<open>
  \<open>strategy_computes L sents scoring\<close>: the scoring value is \<^verbatim>\<open>'sum'\<close>, or a metric that
  \<^verbatim>\<open>pdist\<close> knows and can compute on the count matrix of the document.
\<close>

definition strategy_computes :: "lib \<Rightarrow> string list \<Rightarrow> string \<Rightarrow> bool" where
  "strategy_computes L sents scoring =
     (if scoring = ''sum'' then True
      else (case metric L scoring of
              None \<Rightarrow> False
            | Some m \<Rightarrow>
                (case count_fit_transform L sents of
                   Inl e \<Rightarrow> False
                 | Inr X \<Rightarrow> m X \<noteq> None)))"

subsection \<open>A small document and toy libraries\<close>

text \<open>
  The five sentences of the specification's scenario, with the terms that are not English
  stop words. The weights stand in for tf-idf (raw counts). \<open>toy_cosine\<close> has the two
  properties of the cosine distance that matter here: it is not a number against an
  all-zero vector, and zero between equal vectors. \<open>toy_mahalanobis\<close> fails where the
  covariance matrix is singular for want of rows.
\<close>

definition toy_analyze :: "string \<Rightarrow> string list" where
  "toy_analyze s =
     (if s = ''A cat sat.'' then [''cat'', ''sat'']
      else if s = ''A dog ran.'' then [''dog'', ''ran'']
      else if s = ''The cat and dog played.'' then [''cat'', ''dog'', ''played'']
      else if s = ''It was sunny.'' then [''sunny'']
      else if s = ''They went home.'' then [''went'', ''home'']
      else [])"

definition toy_cosine :: "real list \<Rightarrow> real list \<Rightarrow> real option" where
  "toy_cosine u v =
     (if list_all (\<lambda>x. x = 0) u \<or> list_all (\<lambda>x. x = 0) v then None
      else if u = v then Some 0 else Some 1)"

definition toy_mahalanobis ::
  "real list list \<Rightarrow> (real list \<Rightarrow> real list \<Rightarrow> real option) option" where
  "toy_mahalanobis X =
     (case X of
        [] \<Rightarrow> None
      | r # _ \<Rightarrow>
          if length X \<le> length r then None
          else Some (\<lambda>u v. Some (if u = v then 0 else 1)))"

definition toy_lib :: lib where
  "toy_lib =
     \<lparr> analyze = toy_analyze,
       tfidf_weight = (\<lambda>sents i t. real (count_list (toy_analyze (sents ! i)) t)),
       metric = (\<lambda>name. if name = ''cosine'' then Some (\<lambda>X. Some toy_cosine)
                         else if name = ''mahalanobis'' then Some toy_mahalanobis
                         else None) \<rparr>"

definition story :: "string list" where
  "story = [''A cat sat.'', ''A dog ran.'', ''The cat and dog played.'',
            ''It was sunny.'', ''They went home.'']"

section \<open>Properties\<close>

subsection \<open>The scores\<close>

lemma fit_transform_length:
  "fit_transform L w sents = Inr dtm \<Longrightarrow> length dtm = length sents"
  by (auto simp: fit_transform_def Let_def split: if_splits)

lemma score_sum_fst: "map fst (score_sum dtm) = [0..<length dtm]"
  by (simp add: score_sum_def enumerate_eq_zip split_def comp_def)

lemma score_distance_fst: "map fst (score_distance y) = [0..<length y]"
  by (simp add: score_distance_def enumerate_eq_zip split_def comp_def)

lemma float_scores_fst:
  "float_scores xs = Some ys \<Longrightarrow> map fst ys = map fst xs"
  by (induction xs arbitrary: ys rule: float_scores.induct) auto

lemma float_scores_Some:
  "\<forall>e \<in> set xs. snd e \<noteq> None \<Longrightarrow> \<exists>ys. float_scores xs = Some ys"
  by (induction xs rule: float_scores.induct) auto

lemma defined_mem: "Some x \<in> set c \<Longrightarrow> x \<in> set (defined c)"
  by (induction c rule: defined.induct) auto

lemma squareform_pdist_length: "length (squareform_pdist d X) = length X"
  by (simp add: squareform_pdist_def)

lemma squareform_pdist_diag:
  "c \<in> set (squareform_pdist d X) \<Longrightarrow> Some 0 \<in> set c"
  by (auto simp: squareform_pdist_def)

lemma nanmean_row_defined:
  "c \<in> set (squareform_pdist d X) \<Longrightarrow> nanmean c \<noteq> None"
proof -
  assume "c \<in> set (squareform_pdist d X)"
  then have "0 \<in> set (defined c)"
    by (intro defined_mem squareform_pdist_diag)
  then have "defined c \<noteq> []" by auto
  then show ?thesis by (simp add: nanmean_def Let_def)
qed

lemma float_scores_distance:
  "\<exists>scores. float_scores (score_distance (squareform_pdist d X)) = Some scores"
proof (rule float_scores_Some, rule ballI)
  fix e assume "e \<in> set (score_distance (squareform_pdist d X))"
  then obtain i c where "e = (i, nanmean c)" "c \<in> set (squareform_pdist d X)"
    by (auto simp: score_distance_def enumerate_eq_zip dest: set_zip_rightD)
  then show "snd e \<noteq> None" using nanmean_row_defined by simp
qed

text \<open>
  With a non-empty vocabulary and a known strategy the scoring step returns one entry per
  sentence, numbered from 0 in document order.
\<close>

lemma scores_of_ok:
  assumes "vocabulary L sents \<noteq> []" and "strategy_computes L sents scoring"
  shows "\<exists>scores. scores_of L sents scoring = Inr scores
           \<and> map fst scores = [0..<length sents]"
proof (cases "scoring = ''sum''")
  case True
  with assms(1) show ?thesis
    by (simp add: scores_of_def tfidf_fit_transform_def fit_transform_def score_sum_fst)
next
  case False
  obtain dtm where dtm: "count_fit_transform L sents = Inr dtm" "length dtm = length sents"
    using assms(1) by (simp add: count_fit_transform_def fit_transform_def)
  with False assms(2) obtain m d where d: "metric L scoring = Some m" "m dtm = Some d"
    by (auto simp: strategy_computes_def split: option.splits)
  obtain scores where s: "float_scores (score_distance (squareform_pdist d dtm)) = Some scores"
    using float_scores_distance by blast
  from float_scores_fst [OF s] have "map fst scores = [0..<length sents]"
    by (simp add: score_distance_fst squareform_pdist_length dtm(2))
  with False d dtm s show ?thesis by (simp add: scores_of_def)
qed

lemma scores_of_fst:
  assumes "scores_of L sents scoring = Inr scores"
  shows "map fst scores = [0..<length sents]"
proof (cases "scoring = ''sum''")
  case True
  with assms show ?thesis
    by (auto simp: scores_of_def tfidf_fit_transform_def score_sum_fst
             dest: fit_transform_length split: sum.splits)
next
  case False
  with assms obtain dtm d where
    dtm: "count_fit_transform L sents = Inr dtm" and
    s: "float_scores (score_distance (squareform_pdist d dtm)) = Some scores"
    by (auto simp: scores_of_def split: sum.splits option.splits)
  from dtm have "length dtm = length sents"
    by (auto simp: count_fit_transform_def dest: fit_transform_length)
  with float_scores_fst [OF s] show ?thesis
    by (simp add: score_distance_fst squareform_pdist_length)
qed

subsection \<open>Ranking and selection\<close>

lemma ranks_before_trans: "ranks_before a b \<Longrightarrow> ranks_before b c \<Longrightarrow> ranks_before a c"
  by (auto simp: ranks_before_def)

lemma insort_ranks_before:
  assumes "sorted_wrt ranks_before ys" and "\<forall>y \<in> set ys. fst x < fst y"
  shows "sorted_wrt ranks_before (insort_key (\<lambda>x. - snd x) x ys)"
  using assms
proof (induction ys)
  case Nil
  then show ?case by simp
next
  case (Cons y ys)
  show ?case
  proof (cases "snd y \<le> snd x")
    case True
    then have xy: "ranks_before x y" using Cons.prems(2) by (auto simp: ranks_before_def)
    have "\<forall>z \<in> set ys. ranks_before x z"
      using xy Cons.prems(1) by (auto intro: ranks_before_trans)
    with True xy Cons.prems(1) show ?thesis by simp
  next
    case False
    then have yx: "ranks_before y x" by (auto simp: ranks_before_def)
    have "sorted_wrt ranks_before (insort_key (\<lambda>x. - snd x) x ys)"
      using Cons by simp
    with False yx Cons.prems(1) show ?thesis by (auto simp: set_insort_key)
  qed
qed

lemma sorted_by_score_reverse_ranks:
  "sorted_wrt (<) (map fst scores) \<Longrightarrow> sorted_wrt ranks_before (sorted_by_score_reverse scores)"
proof (induction scores)
  case Nil
  then show ?case by (simp add: sorted_by_score_reverse_def)
next
  case (Cons x xs)
  then have "sorted_wrt ranks_before (sort_key (\<lambda>x. - snd x) xs)"
    by (simp add: sorted_by_score_reverse_def)
  moreover have "\<forall>y \<in> set (sort_key (\<lambda>x. - snd x) xs). fst x < fst y"
    using Cons.prems by auto
  ultimately show ?case
    by (simp add: sorted_by_score_reverse_def insort_ranks_before)
qed

lemma sorted_by_score_reverse_mset [simp]:
  "mset (sorted_by_score_reverse scores) = mset scores"
  by (simp add: sorted_by_score_reverse_def)

lemma sorted_by_score_reverse_length [simp]:
  "length (sorted_by_score_reverse scores) = length scores"
  by (simp add: sorted_by_score_reverse_def)

lemma sorted_by_score_reverse_distinct:
  "distinct (map fst scores) \<Longrightarrow> distinct (map fst (sorted_by_score_reverse scores))"
  by (simp add: sorted_by_score_reverse_def distinct_map)

text \<open>What \<open>select\<close> returns is the sorted copy of a prefix of the ranking.\<close>

lemma select_prefix:
  assumes "select scores p = Inr es"
  shows "\<exists>m. es = sort (take m (sorted_by_score_reverse scores))"
  using assms
  by (cases p) (auto simp: select_def slice_to_def split: if_splits)

lemma sorted_pairs_fst:
  fixes es :: "(nat \<times> real) list"
  shows "sorted es \<Longrightarrow> sorted (map fst es)"
  by (induction es) (auto simp: less_eq_prod_def)

lemma strictly_increasing_sorted:
  fixes es :: "(nat \<times> real) list"
  shows "sorted_wrt (<) (map fst es) \<Longrightarrow> sorted es"
  by (induction es) (auto simp: less_eq_prod_def)

lemma select_increasing:
  assumes "select scores p = Inr es" and "distinct (map fst scores)"
  shows "sorted_wrt (<) (map fst es)"
proof -
  obtain m where es: "es = sort (take m (sorted_by_score_reverse scores))"
    using select_prefix [OF assms(1)] by blast
  have "distinct (map fst (take m (sorted_by_score_reverse scores)))"
    using sorted_by_score_reverse_distinct [OF assms(2)]
    by (simp add: take_map [symmetric])
  then have "distinct (map fst es)"
    by (simp add: es distinct_map)
  moreover have "sorted (map fst es)"
    by (rule sorted_pairs_fst) (simp add: es)
  ultimately show ?thesis by (simp add: strict_sorted_iff)
qed

lemma foldl_append_concat:
  "foldl (\<lambda>result i. result @ f i) acc xs = acc @ concat (map f xs)"
  by (induction xs arbitrary: acc) simp_all

lemma select_all:
  assumes "map fst scores = [0..<n]" and "int n \<le> k"
  shows "select scores (PyInt k) = Inr scores"
proof -
  have len: "length scores = n" using assms(1) by (metis length_map length_upt diff_zero)
  have "sorted_wrt (<) (map fst scores)" by (simp add: assms(1) strict_sorted_iff)
  then have "sorted scores" by (rule strictly_increasing_sorted)
  then have "sort (sorted_by_score_reverse scores) = scores"
    by (intro properties_for_sort) simp_all
  with assms(2) len show ?thesis
    by (simp add: select_def slice_to_def)
qed

lemma select_length:
  "0 \<le> r \<Longrightarrow>
     \<exists>es. select scores (PyInt r) = Inr es \<and> int (length es) = min r (int (length scores))"
  by (auto simp: select_def slice_to_def)

lemma select_float: "select scores (PyFloat f) = Inl SliceIndexNotInt"
  by (simp add: select_def slice_to_def)

lemma summary_entries_select:
  "scores_of L sents scoring = Inr scores \<Longrightarrow> resolve p (length sents) = Inr q \<Longrightarrow>
     summary_entries L sents p scoring = select scores q"
  by (simp add: summary_entries_def)

lemma summary_entries_overflow:
  "resolve p (length sents) = Inl e \<Longrightarrow> summary_entries L sents p scoring = Inl e"
  by (simp add: summary_entries_def)

text \<open>
  The sorted copy of any prefix of the ranking: its entries are entries of the document, in
  document order, and each ranks before every entry left out.
\<close>

lemma prefix_subset: "set (sort (take m (sorted_by_score_reverse scores))) \<subseteq> set scores"
  by (auto dest: in_set_takeD simp: sorted_by_score_reverse_def)

lemma prefix_increasing:
  assumes "distinct (map fst scores)"
  shows "sorted_wrt (<) (map fst (sort (take m (sorted_by_score_reverse scores))))"
proof -
  let ?es = "sort (take m (sorted_by_score_reverse scores))"
  have "distinct (map fst (take m (sorted_by_score_reverse scores)))"
    using sorted_by_score_reverse_distinct [OF assms]
    by (simp add: take_map [symmetric])
  then have "distinct (map fst ?es)" by (simp add: distinct_map)
  moreover have "sorted (map fst ?es)" by (rule sorted_pairs_fst) simp
  ultimately show ?thesis by (simp add: strict_sorted_iff)
qed

lemma prefix_best:
  assumes "sorted_wrt (<) (map fst scores)"
  shows "\<forall>a \<in> set (sort (take m (sorted_by_score_reverse scores))).
           \<forall>b \<in> set scores - set (sort (take m (sorted_by_score_reverse scores))).
             ranks_before a b"
proof -
  let ?top = "sorted_by_score_reverse scores"
  have "sorted_wrt ranks_before (take m ?top @ drop m ?top)"
    using sorted_by_score_reverse_ranks [OF assms] by simp
  then have before: "\<forall>a \<in> set (take m ?top). \<forall>b \<in> set (drop m ?top). ranks_before a b"
    by (simp only: sorted_wrt_append) blast
  have "set scores = set (take m ?top) \<union> set (drop m ?top)"
    by (metis append_take_drop_id set_append set_mset_mset sorted_by_score_reverse_mset)
  then have "set scores - set (sort (take m ?top)) \<subseteq> set (drop m ?top)" by auto
  with before show ?thesis by auto
qed

lemma select_subset: "select scores p = Inr es \<Longrightarrow> set es \<subseteq> set scores"
proof -
  assume "select scores p = Inr es"
  then obtain m where "es = sort (take m (sorted_by_score_reverse scores))"
    using select_prefix by blast
  then show ?thesis
    by (auto dest: in_set_takeD simp: sorted_by_score_reverse_def)
qed

lemma vocabulary_Nil [simp]: "vocabulary L [] = []"
  by (simp add: vocabulary_def)

lemma scores_of_empty_vocabulary:
  "vocabulary L sents = [] \<Longrightarrow> scores_of L sents scoring = Inl EmptyVocabulary"
  by (simp add: scores_of_def tfidf_fit_transform_def count_fit_transform_def fit_transform_def)

lemma summarize_entries:
  "summarize L sents p scoring =
     (case summary_entries L sents p scoring of
        Inl e \<Rightarrow> Inl e
      | Inr es \<Rightarrow> Inr (concat (map (\<lambda>e. sents ! fst e) es)))"
  by (simp add: summarize_def foldl_append_concat split: sum.splits)

subsection \<open>Binary64 rounding\<close>

lemma bitlenI: "0 < k \<Longrightarrow> 2 ^ (k - 1) \<le> m \<Longrightarrow> m < 2 ^ k \<Longrightarrow> bitlen m = int k"
proof -
  assume k: "0 < k" and lo: "2 ^ (k - 1) \<le> m" and hi: "m < 2 ^ k"
  have "bitlen m \<le> int k" using hi by (simp add: bitlen_le_iff_power)
  moreover have "int k \<le> bitlen m" using lo k by (simp add: bitlen_ge_iff_power)
  ultimately show ?thesis by simp
qed

lemma round_half_even_bounds:
  "real_of_int (round_half_even z) \<le> z + 1 / 2" "z - 1 / 2 \<le> real_of_int (round_half_even z)"
  by (auto simp: round_half_even_def Let_def) linarith+

lemma round_half_even_of_int [simp]: "round_half_even (of_int k) = k"
  by (simp add: round_half_even_def)

lemma round_half_even_nonneg: "0 \<le> z \<Longrightarrow> 0 \<le> round_half_even z"
  by (auto simp: round_half_even_def Let_def)

lemma round_half_even_le_double: "0 \<le> z \<Longrightarrow> real_of_int (round_half_even z) \<le> 2 * z"
proof -
  assume z: "0 \<le> z"
  show ?thesis
  proof (cases "z < 1")
    case False
    with round_half_even_bounds(1) [of z] show ?thesis by linarith
  next
    case True
    with z have f: "\<lfloor>z\<rfloor> = 0" by linarith
    show ?thesis using z by (auto simp: round_half_even_def Let_def f)
  qed
qed

lemma ulp_of_pos: "0 < ulp_of X"
  by (simp add: ulp_of_def Let_def)

lemma rounded_nonneg: "0 \<le> X \<Longrightarrow> 0 \<le> rounded X"
  unfolding rounded_def
  by (intro mult_nonneg_nonneg round_half_even_nonneg divide_nonneg_nonneg)
     (use ulp_of_pos [of X] in simp_all)

lemma rounded_scaled:
  "real_of_int (rounded X) = real_of_int (round_half_even (X / of_int (ulp_of X))) * of_int (ulp_of X)"
  by (simp add: rounded_def)

lemma rounded_le_double:
  assumes "0 \<le> X"
  shows "real_of_int (rounded X) \<le> 2 * X"
proof -
  let ?u = "real_of_int (ulp_of X)"
  have up: "0 < ?u" using ulp_of_pos [of X] by simp
  then have q: "0 \<le> X / ?u" using assms by simp
  have "real_of_int (round_half_even (X / ?u)) * ?u \<le> 2 * (X / ?u) * ?u"
    using up round_half_even_le_double [OF q] by (intro mult_right_mono) simp_all
  also have "\<dots> = 2 * X" using up by simp
  finally show ?thesis by (simp only: rounded_scaled)
qed

lemma rounded_near: "\<bar>real_of_int (rounded X) - X\<bar> \<le> real_of_int (ulp_of X) / 2"
proof -
  let ?u = "real_of_int (ulp_of X)"
  let ?q = "real_of_int (round_half_even (X / ?u))"
  have up: "0 < ?u" using ulp_of_pos [of X] by simp
  have "\<bar>?q - X / ?u\<bar> \<le> 1 / 2"
    using round_half_even_bounds [of "X / ?u"] by linarith
  then have "\<bar>?q - X / ?u\<bar> * ?u \<le> 1 / 2 * ?u"
    using up by (intro mult_right_mono) simp_all
  moreover have "\<bar>?q - X / ?u\<bar> * ?u = \<bar>?q * ?u - X\<bar>"
  proof -
    have "\<bar>?q - X / ?u\<bar> * ?u = \<bar>(?q - X / ?u) * ?u\<bar>"
      using up by (simp add: abs_mult)
    also have "(?q - X / ?u) * ?u = ?q * ?u - X"
      using up by (simp add: left_diff_distrib)
    finally show ?thesis .
  qed
  ultimately show ?thesis by (simp add: rounded_scaled)
qed

lemma ulp_of_le:
  assumes "X < 2 ^ (53 + j)"
  shows "ulp_of X \<le> 2 ^ j"
proof -
  let ?b = "bitlen \<lfloor>X\<rfloor>"
  have "\<lfloor>X\<rfloor> < 2 ^ (53 + j)" using assms by (simp add: floor_less_iff)
  then have b: "?b \<le> int (53 + j)"
    by (subst bitlen_le_iff_power) (simp del: of_nat_add)
  show ?thesis
  proof (cases "?b \<le> 53")
    case True
    then show ?thesis by (simp add: ulp_of_def)
  next
    case False
    have "(2::int) ^ nat (?b - 53) \<le> 2 ^ j"
      by (rule power_increasing) (use b in auto)
    with False show ?thesis by (simp add: ulp_of_def)
  qed
qed

lemma rounded_exact:
  assumes "0 < a" and "a < 2 ^ 53" and "53 \<le> j"
  shows "rounded (real_of_int (a * 2 ^ j)) = a * 2 ^ j"
proof -
  define c where "c = nat (bitlen a)"
  have c1: "bitlen a = int c" by (simp add: c_def bitlen_nonneg)
  have c53: "c \<le> 53" using assms(2) bitlen_le_iff_power [of a 53] c1 by simp
  have cpos: "0 < c" using assms(1) bitlen_eq_zero_iff [of a] c1 by (cases c) auto
  let ?X = "real_of_int (a * 2 ^ j)"
  let ?u = "c + (j - 53)"
  have fl: "\<lfloor>?X\<rfloor> = a * 2 ^ j" by (rule floor_of_int)
  have b: "bitlen \<lfloor>?X\<rfloor> = int c + int j" unfolding fl using assms(1) c1 by simp
  have nat_u: "nat (int c + int j - 53) = ?u" using assms(3) by simp
  have "\<not> int c + int j \<le> 53" using cpos assms(3) by simp
  then have ulp: "ulp_of ?X = 2 ^ ?u"
    unfolding ulp_of_def Let_def b nat_u by simp
  have "j = (53 - c) + ?u" using c53 assms(3) by simp
  then have split: "(2::int) ^ j = 2 ^ (53 - c) * 2 ^ ?u"
    by (metis power_add)
  have eq: "?X = real_of_int (a * 2 ^ (53 - c)) * real_of_int (2 ^ ?u)"
    unfolding split by simp
  have q: "?X / real_of_int (2 ^ ?u) = real_of_int (a * 2 ^ (53 - c))"
    unfolding eq by (rule nonzero_mult_div_cancel_right) simp
  have "rounded ?X = round_half_even (?X / real_of_int (2 ^ ?u)) * 2 ^ ?u"
    by (simp only: rounded_def ulp)
  also have "\<dots> = a * 2 ^ (53 - c) * 2 ^ ?u"
    by (simp only: q round_half_even_of_int)
  also have "\<dots> = a * 2 ^ j"
    by (simp only: split mult.assoc)
  finally show ?thesis .
qed

lemma tiny_ge: "53 \<le> tiny"
  by (simp add: tiny_def)

lemma tiny_huge: "53 + tiny \<le> huge"
  by (simp add: tiny_def huge_def)

lemma binary64_zero [simp]: "binary64 0 = Some 0"
  by (simp add: binary64_def rounded_def round_half_even_def)

lemma binary64_Some:
  "binary64 x = Some v \<Longrightarrow> v = sgn x * of_int (rounded (\<bar>x\<bar> * 2 ^ tiny)) / 2 ^ tiny"
  by (auto simp: binary64_def Let_def split: if_splits)

lemma binary64_finite:
  assumes "\<bar>x\<bar> < 2 ^ 1023"
  shows "\<exists>v. binary64 x = Some v \<and> \<bar>v\<bar> \<le> 2 * \<bar>x\<bar>"
proof -
  let ?X = "\<bar>x\<bar> * 2 ^ tiny"
  let ?m = "rounded ?X"
  have X: "0 \<le> ?X" by simp
  have m0: "0 \<le> real_of_int ?m" using rounded_nonneg [OF X] by simp
  have m2: "real_of_int ?m \<le> 2 * ?X" by (rule rounded_le_double [OF X])
  have "?X < 2 ^ 1023 * 2 ^ tiny" using assms by (intro mult_strict_right_mono) simp_all
  also have "(2::real) ^ 1023 * 2 ^ tiny = 2 ^ (1023 + tiny)" by (simp only: power_add)
  finally have "2 * ?X < 2 * 2 ^ (1023 + tiny)" by simp
  also have "2 * (2::real) ^ (1023 + tiny) = 2 ^ huge"
  proof -
    have "Suc (1023 + tiny) = huge" by (simp add: tiny_def huge_def)
    then show ?thesis by (metis power_Suc)
  qed
  finally have "real_of_int ?m < 2 ^ huge" using m2 by linarith
  also have "(2::real) ^ huge = real_of_int (2 ^ huge)" by simp
  finally have "?m < 2 ^ huge" by (simp only: of_int_less_iff)
  then have fin: "\<not> 2 ^ huge \<le> ?m" by simp
  have v: "binary64 x = Some (sgn x * of_int ?m / 2 ^ tiny)"
    using fin by (simp add: binary64_def Let_def)
  have "\<bar>sgn x * of_int ?m / 2 ^ tiny\<bar> = \<bar>sgn x\<bar> * (real_of_int ?m / 2 ^ tiny)"
    using m0 by (simp add: abs_mult)
  also have "\<dots> \<le> 1 * (real_of_int ?m / 2 ^ tiny)"
    using m0 by (intro mult_right_mono) (simp_all add: sgn_real_def)
  also have "\<dots> = real_of_int ?m / 2 ^ tiny" by simp
  also have "\<dots> \<le> 2 * ?X / 2 ^ tiny" using m2 by (rule divide_right_mono) simp
  also have "\<dots> = 2 * \<bar>x\<bar>" by simp
  finally show ?thesis using v by blast
qed

lemma binary64_sign:
  assumes "binary64 x = Some v"
  shows "(0 \<le> x \<longrightarrow> 0 \<le> v) \<and> (x \<le> 0 \<longrightarrow> v \<le> 0)"
proof -
  let ?m = "real_of_int (rounded (\<bar>x\<bar> * 2 ^ tiny))"
  have m0: "0 \<le> ?m / 2 ^ tiny" using rounded_nonneg [of "\<bar>x\<bar> * 2 ^ tiny"] by simp
  have v: "v = sgn x * (?m / 2 ^ tiny)" using binary64_Some [OF assms] by simp
  show ?thesis
  proof (intro conjI impI)
    assume "0 \<le> x"
    then have "0 \<le> sgn x" by (simp add: sgn_real_def)
    then show "0 \<le> v" unfolding v using m0 by (rule mult_nonneg_nonneg)
  next
    assume "x \<le> 0"
    then have "sgn x \<le> 0" by (simp add: sgn_real_def)
    then show "v \<le> 0" unfolding v using m0 by (rule mult_nonpos_nonneg)
  qed
qed

text \<open>An integer below \<open>2 ^ 53\<close> in magnitude is a binary64 value.\<close>

lemma binary64_of_int:
  assumes "\<bar>k\<bar> < 2 ^ 53"
  shows "binary64 (of_int k) = Some (of_int k)"
proof (cases "k = 0")
  case True
  then show ?thesis by simp
next
  case False
  define a where "a = \<bar>k\<bar>"
  have a: "0 < a" "a < 2 ^ 53" using False assms by (simp_all add: a_def)
  have Xa: "\<bar>real_of_int k\<bar> * 2 ^ tiny = real_of_int (a * 2 ^ tiny)" by (simp add: a_def)
  have m: "rounded (\<bar>real_of_int k\<bar> * 2 ^ tiny) = a * 2 ^ tiny"
    unfolding Xa by (rule rounded_exact [OF a tiny_ge])
  have "a * 2 ^ tiny < (2 ^ 53 * 2 ^ tiny :: int)" using a(2) by simp
  also have "(2 ^ 53 * 2 ^ tiny :: int) = 2 ^ (53 + tiny)" by (simp only: power_add)
  also have "\<dots> \<le> 2 ^ huge" by (rule power_increasing [OF tiny_huge]) simp
  finally have fin: "\<not> (2 ^ huge \<le> a * (2 ^ tiny :: int))" by simp
  have "binary64 (of_int k) = Some (sgn (real_of_int k) * real_of_int (a * 2 ^ tiny) / 2 ^ tiny)"
    unfolding binary64_def Let_def m using fin by simp
  also have "sgn (real_of_int k) * real_of_int (a * 2 ^ tiny) / 2 ^ tiny = real_of_int k"
    by (simp add: a_def sgn_real_def)
  finally show ?thesis .
qed

lemma binary64_of_nat: "n < 2 ^ 53 \<Longrightarrow> binary64 (real n) = Some (real n)"
  using binary64_of_int [of "int n"] by simp

text \<open>Below \<open>2 ^ 53\<close> the rounding moves a number by at most one half.\<close>

lemma binary64_near:
  assumes "\<bar>x\<bar> < 2 ^ 53" and "binary64 x = Some v"
  shows "\<bar>v - x\<bar> \<le> 1 / 2"
proof -
  let ?X = "\<bar>x\<bar> * 2 ^ tiny"
  let ?m = "real_of_int (rounded ?X)"
  have "?X < 2 ^ 53 * 2 ^ tiny" using assms(1) by (intro mult_strict_right_mono) simp_all
  also have "(2 ^ 53 * 2 ^ tiny :: real) = 2 ^ (53 + tiny)" by (simp only: power_add)
  finally have "ulp_of ?X \<le> 2 ^ tiny" by (rule ulp_of_le)
  then have "real_of_int (ulp_of ?X) \<le> real_of_int (2 ^ tiny)" by (simp only: of_int_le_iff)
  also have "real_of_int (2 ^ tiny) = 2 ^ tiny" by simp
  finally have d: "\<bar>?m - ?X\<bar> \<le> 2 ^ tiny / 2" using rounded_near [of ?X] by linarith
  have v: "v = sgn x * (?m / 2 ^ tiny)" using binary64_Some [OF assms(2)] by simp
  have "x = sgn x * (?X / 2 ^ tiny)" by (simp add: sgn_real_def)
  then have "v - x = sgn x * ((?m - ?X) / 2 ^ tiny)"
    unfolding v by (simp add: right_diff_distrib diff_divide_distrib)
  then have "\<bar>v - x\<bar> = \<bar>sgn x\<bar> * (\<bar>?m - ?X\<bar> / 2 ^ tiny)"
    by (simp add: abs_mult)
  also have "\<dots> \<le> 1 * (\<bar>?m - ?X\<bar> / 2 ^ tiny)"
    by (intro mult_right_mono) (simp_all add: sgn_real_def)
  also have "\<dots> \<le> (2 ^ tiny / 2) / 2 ^ tiny"
    using d by (simp add: divide_right_mono)
  finally show ?thesis by simp
qed

text \<open>Evaluating a rounding: the bit length is supplied, the rest is arithmetic.\<close>

lemma binary64_eval:
  assumes "0 < k" and "53 < k"
    and "2 ^ (k - 1) \<le> \<lfloor>\<bar>x\<bar> * 2 ^ tiny\<rfloor>" and "\<lfloor>\<bar>x\<bar> * 2 ^ tiny\<rfloor> < 2 ^ k"
  shows "binary64 x =
    (let m = round_half_even (\<bar>x\<bar> * 2 ^ tiny / 2 ^ (k - 53)) * 2 ^ (k - 53)
     in if 2 ^ huge \<le> m then None else Some (sgn x * of_int m / 2 ^ tiny))"
proof -
  have b: "bitlen \<lfloor>\<bar>x\<bar> * 2 ^ tiny\<rfloor> = int k" by (rule bitlenI [OF assms(1,3,4)])
  have "nat (int k - 53) = k - 53" by simp
  then have "ulp_of (\<bar>x\<bar> * 2 ^ tiny) = 2 ^ (k - 53)"
    using assms(2) by (simp add: ulp_of_def b)
  then show ?thesis by (simp add: binary64_def rounded_def)
qed

subsection \<open>Resolving the length\<close>

lemma py_int_of_int [simp]: "py_int (of_int z) = z"
  by (simp add: py_int_def)

lemma py_round_of_int [simp]: "py_round (of_int z) = of_int z"
proof -
  have "\<lfloor>of_int z + (1 / 2 :: real)\<rfloor> = z" by linarith
  moreover have "\<lfloor>- of_int z + (1 / 2 :: real)\<rfloor> = - z" by linarith
  ultimately show ?thesis by (simp add: py_round_def)
qed

lemma py_int_py_round:
  "py_int (py_round x) = (if 0 \<le> x then \<lfloor>x + 1 / 2\<rfloor> else - \<lfloor>- x + 1 / 2\<rfloor>)"
proof (cases "0 \<le> x")
  case True
  then show ?thesis by (simp add: py_round_def)
next
  case False
  have "py_int (- real_of_int \<lfloor>- x + 1 / 2\<rfloor>) = py_int (of_int (- \<lfloor>- x + 1 / 2\<rfloor>))"
    by simp
  also have "\<dots> = - \<lfloor>- x + 1 / 2\<rfloor>" by (rule py_int_of_int)
  finally show ?thesis using False by (simp add: py_round_def)
qed

text \<open>\<^verbatim>\<open>int(round(x))\<close> is the integer nearest to \<open>x\<close>, the farther from zero of two.\<close>

lemma py_int_py_round_nearest:
  "\<bar>real_of_int (py_int (py_round x)) - x\<bar> \<le> 1 / 2"
  "\<bar>real_of_int (py_int (py_round x)) - x\<bar> = 1 / 2 \<Longrightarrow> \<bar>x\<bar> < \<bar>real_of_int (py_int (py_round x))\<bar>"
proof -
  let ?r = "real_of_int (py_int (py_round x))"
  have up: "real_of_int \<lfloor>x + 1 / 2\<rfloor> \<le> x + 1 / 2" "x + 1 / 2 < real_of_int \<lfloor>x + 1 / 2\<rfloor> + 1"
    by linarith+
  have down: "real_of_int \<lfloor>- x + 1 / 2\<rfloor> \<le> - x + 1 / 2"
    "- x + 1 / 2 < real_of_int \<lfloor>- x + 1 / 2\<rfloor> + 1"
    by linarith+
  have r: "?r = (if 0 \<le> x then real_of_int \<lfloor>x + 1 / 2\<rfloor> else - real_of_int \<lfloor>- x + 1 / 2\<rfloor>)"
    by (simp only: py_int_py_round) simp
  show "\<bar>?r - x\<bar> \<le> 1 / 2"
  proof (cases "0 \<le> x")
    case True
    then have "?r = real_of_int \<lfloor>x + 1 / 2\<rfloor>" by (simp only: r if_True)
    with up show ?thesis by linarith
  next
    case False
    then have "?r = - real_of_int \<lfloor>- x + 1 / 2\<rfloor>" by (simp only: r if_False)
    with down show ?thesis by linarith
  qed
  assume tie: "\<bar>?r - x\<bar> = 1 / 2"
  show "\<bar>x\<bar> < \<bar>?r\<bar>"
  proof (cases "0 \<le> x")
    case True
    then have "?r = real_of_int \<lfloor>x + 1 / 2\<rfloor>" by (simp only: r if_True)
    with up tie True show ?thesis by linarith
  next
    case False
    then have "?r = - real_of_int \<lfloor>- x + 1 / 2\<rfloor>" by (simp only: r if_False)
    with down tie False show ?thesis by linarith
  qed
qed

lemma py_int_py_round_sign:
  "0 \<le> x \<Longrightarrow> 0 \<le> py_int (py_round x)" "x \<le> 0 \<Longrightarrow> py_int (py_round x) \<le> 0"
proof -
  show "0 \<le> x \<Longrightarrow> 0 \<le> py_int (py_round x)" by (simp add: py_int_py_round)
  assume "x \<le> 0"
  show "py_int (py_round x) \<le> 0"
  proof (cases "0 \<le> x")
    case True
    with \<open>x \<le> 0\<close> have "x = 0" by simp
    then show ?thesis by (simp add: py_int_py_round)
  next
    case False
    then have "0 \<le> \<lfloor>- x + 1 / 2\<rfloor>" by simp
    with False show ?thesis by (simp add: py_int_py_round)
  qed
qed

lemma resolve_int_count: "1 \<le> k \<Longrightarrow> resolve (PyInt k) n = Inr (PyInt k)"
  by (simp add: resolve_def)

lemma resolve_float_count: "1 \<le> f \<Longrightarrow> resolve (PyFloat f) n = Inr (PyFloat f)"
  by (simp add: resolve_def)

lemma resolve_int_below_one:
  assumes "k < 1" and "\<bar>k * int n\<bar> < 2 ^ 53"
  shows "resolve (PyInt k) n = Inr (PyInt (k * int n))"
proof -
  have "binary64 (of_int (k * int n)) = Some (of_int (k * int n))"
    by (rule binary64_of_int [OF assms(2)])
  moreover have "py_int (py_round (real_of_int (k * int n))) = k * int n"
    by (simp only: py_round_of_int py_int_of_int)
  ultimately show ?thesis using assms(1) by (simp add: resolve_def)
qed

lemma resolve_float_below_one:
  assumes "f < 1" and "n < 2 ^ 53"
  shows "resolve (PyFloat f) n =
    (case binary64 (f * real n) of
       None \<Rightarrow> Inl OverflowError
     | Some x \<Rightarrow> Inr (PyInt (py_int (py_round x))))"
  using assms by (simp add: resolve_def binary64_of_nat)

text \<open>On a list a machine can hold, a fraction between 0 and 1 never overflows.\<close>

lemma resolve_fraction:
  assumes "0 \<le> f" and "f < 1" and "n < 2 ^ 63"
  shows "\<exists>r. resolve (PyFloat f) n = Inr (PyInt r) \<and> 0 \<le> r"
proof -
  have n: "\<bar>real n\<bar> < 2 ^ 63" using assms(3) by (metis abs_of_nat of_nat_less_numeral_power_cancel_iff)
  also have "(2::real) ^ 63 < 2 ^ 1023" by (rule power_strict_increasing) simp_all
  finally obtain y where y: "binary64 (real n) = Some y" "\<bar>y\<bar> \<le> 2 * \<bar>real n\<bar>"
    using binary64_finite by blast
  have y0: "0 \<le> y" using binary64_sign [OF y(1)] by simp
  have "\<bar>f * y\<bar> \<le> \<bar>y\<bar>" using assms(1,2) by (simp add: abs_mult mult_left_le_one_le)
  also have "\<dots> < 2 * 2 ^ 63" using y(2) n by linarith
  also have "(2 * 2 ^ 63 :: real) < 2 ^ 1023" by simp
  finally obtain x where x: "binary64 (f * y) = Some x"
    using binary64_finite by blast
  have "0 \<le> f * y" using assms(1) y0 by simp
  then have "0 \<le> x" using binary64_sign [OF x] by simp
  then have "0 \<le> py_int (py_round x)" by (rule py_int_py_round_sign)
  with assms(2) y(1) x show ?thesis by (simp add: resolve_def)
qed

lemma resolve_fraction_range:
  assumes "0 \<le> f" and "f < 1" and "n < 2 ^ 53"
  shows "\<exists>r. resolve (PyFloat f) n = Inr (PyInt r) \<and> 0 \<le> r \<and> r \<le> int n"
proof (cases "n = 0")
  case True
  then show ?thesis using assms(2) by (simp add: resolve_def py_int_py_round)
next
  case False
  have fn: "0 \<le> f * real n" "f * real n < real n" using assms(1,2) False by simp_all
  have "real n < 2 ^ 53" using assms(3) by (metis of_nat_less_numeral_power_cancel_iff)
  with fn have small: "\<bar>f * real n\<bar> < 2 ^ 53" by simp
  also have "(2::real) ^ 53 < 2 ^ 1023" by (rule power_strict_increasing) simp_all
  finally obtain x where x: "binary64 (f * real n) = Some x"
    using binary64_finite by blast
  have x0: "0 \<le> x" using binary64_sign [OF x] fn(1) by simp
  have "\<bar>x - f * real n\<bar> \<le> 1 / 2" by (rule binary64_near [OF small x])
  with fn(2) have "x + 1 / 2 < real n + 1" by linarith
  then have "\<lfloor>x + 1 / 2\<rfloor> < int n + 1" by linarith
  with x0 have "0 \<le> py_int (py_round x) \<and> py_int (py_round x) \<le> int n"
    by (simp add: py_int_py_round)
  then show ?thesis
    by (simp add: resolve_float_below_one [OF assms(2,3)] x)
qed

lemma resolve_non_positive:
  assumes "case p of PyInt k \<Rightarrow> k \<le> 0 | PyFloat f \<Rightarrow> f \<le> 0"
    and "resolve p n = Inr q"
  shows "\<exists>r. q = PyInt r \<and> r \<le> 0"
proof (cases p)
  case (PyInt k)
  with assms(1) have k: "k \<le> 0" by simp
  with PyInt assms(2) obtain y where y: "binary64 (of_int (k * int n)) = Some y"
    and q: "q = PyInt (py_int (py_round y))"
    by (auto simp: resolve_def split: option.splits)
  have "real_of_int (k * int n) \<le> 0" using k by (simp add: mult_nonpos_nonneg)
  then have "y \<le> 0" using binary64_sign [OF y] by simp
  then have "py_int (py_round y) \<le> 0" by (rule py_int_py_round_sign)
  with q show ?thesis by simp
next
  case (PyFloat f)
  with assms(1) have f: "f \<le> 0" by simp
  with PyFloat assms(2) obtain y x where y: "binary64 (real n) = Some y"
    and x: "binary64 (f * y) = Some x" and q: "q = PyInt (py_int (py_round x))"
    by (auto simp: resolve_def split: option.splits)
  have "0 \<le> y" using binary64_sign [OF y] by simp
  with f have "f * y \<le> 0" by (simp add: mult_nonpos_nonneg)
  then have "x \<le> 0" using binary64_sign [OF x] by simp
  then have "py_int (py_round x) \<le> 0" by (rule py_int_py_round_sign)
  with q show ?thesis by simp
qed

lemma resolve_empty: "\<exists>q. resolve p 0 = Inr q"
  by (cases p) (simp_all add: resolve_def)

text \<open>The roundings of line 54 that the examples below go through.\<close>

lemma binary64_5: "binary64 (real 5) = Some 5"
  using binary64_of_nat [of 5] by simp

lemma resolve_0_4_of_10: "resolve (PyFloat float_0_4) 10 = Inr (PyInt 4)"
proof -
  have n: "binary64 (real 10) = Some 10" using binary64_of_nat [of 10] by simp
  have "binary64 (float_0_4 * 10) = Some 4"
    unfolding float_0_4_def
    by (subst binary64_eval [where k = 1077])
       (simp_all add: tiny_def huge_def round_half_even_def)
  with n show ?thesis
    by (simp add: resolve_def py_int_py_round float_0_4_def)
qed

lemma resolve_0_3_of_5: "resolve (PyFloat float_0_3) 5 = Inr (PyInt 2)"
proof -
  have "binary64 (float_0_3 * 5) = Some (3 / 2)"
    unfolding float_0_3_def
    by (subst binary64_eval [where k = 1075])
       (simp_all add: tiny_def huge_def round_half_even_def)
  with binary64_5 show ?thesis
    by (simp add: resolve_def py_int_py_round float_0_3_def)
qed

lemma resolve_1_6_of_3: "resolve (PyFloat float_1_6) 3 = Inr (PyInt 1)"
proof -
  have n: "binary64 (real 3) = Some 3" using binary64_of_nat [of 3] by simp
  have "binary64 (float_1_6 * 3) = Some (1 / 2)"
    unfolding float_1_6_def
    by (subst binary64_eval [where k = 1073])
       (simp_all add: tiny_def huge_def round_half_even_def)
  with n show ?thesis
    by (simp add: resolve_def py_int_py_round float_1_6_def)
qed

lemma resolve_minus_0_4_of_5: "resolve (PyFloat (- float_0_4)) 5 = Inr (PyInt (- 2))"
proof -
  have "binary64 (- float_0_4 * 5) = Some (- 2)"
    unfolding float_0_4_def
    by (subst binary64_eval [where k = 1076])
       (simp_all add: tiny_def huge_def round_half_even_def)
  with binary64_5 show ?thesis
    by (simp add: resolve_def py_int_py_round float_0_4_def)
qed

lemma resolve_0_05_of_5: "resolve (PyFloat float_0_05) 5 = Inr (PyInt 0)"
proof -
  have "binary64 (float_0_05 * 5) = Some (1 / 4)"
    unfolding float_0_05_def
    by (subst binary64_eval [where k = 1073])
       (simp_all add: tiny_def huge_def round_half_even_def)
  with binary64_5 show ?thesis
    by (simp add: resolve_def py_int_py_round float_0_05_def)
qed

lemma resolve_0_1_of_1: "resolve (PyFloat float_0_1) 1 = Inr (PyInt 0)"
proof -
  have n: "binary64 (real 1) = Some 1" using binary64_of_nat [of 1] by simp
  have "binary64 (float_0_1 * 1) = Some float_0_1"
    unfolding float_0_1_def
    by (subst binary64_eval [where k = 1071])
       (simp_all add: tiny_def huge_def round_half_even_def)
  with n show ?thesis
    by (simp add: resolve_def py_int_py_round float_0_1_def)
qed

lemma resolve_half_of_5: "resolve (PyFloat (1 / 2)) 5 = Inr (PyInt 3)"
proof -
  have "binary64 (1 / 2 * 5) = Some (5 / 2)"
    by (subst binary64_eval [where k = 1076])
       (simp_all add: tiny_def huge_def round_half_even_def)
  with binary64_5 show ?thesis
    by (simp add: resolve_def py_int_py_round)
qed

lemma resolve_minus_half_of_2: "resolve (PyFloat (- 1 / 2)) 2 = Inr (PyInt (- 1))"
proof -
  have n: "binary64 (real 2) = Some 2" using binary64_of_nat [of 2] by simp
  have "binary64 (- 1 / 2 * 2) = Some (- 1)"
    using binary64_of_int [of "- 1"] by simp
  with n show ?thesis
    by (simp add: resolve_def py_int_py_round)
qed


lemma resolve_zero: "resolve (PyInt 0) n = Inr (PyInt 0)"
  using resolve_int_below_one [of 0 n] by simp

subsection \<open>Rows of the distance matrix\<close>










subsection \<open>Evaluating the toy document\<close>

lemmas toy_defs =
  toy_lib_def toy_analyze_def toy_cosine_def toy_mahalanobis_def story_def vocabulary_def
  summarize_def summary_entries_def scores_of_def select_def slice_to_def
  tfidf_fit_transform_def count_fit_transform_def fit_transform_def
  score_sum_def score_distance_def squareform_pdist_def nanmean_def
  sorted_by_score_reverse_def strategy_computes_def
  resolve_int_count resolve_float_count resolve_zero
  enumerate_eq_zip upt_rec Let_def

lemma story_length: "length story = 5"
  by (simp add: story_def)

lemma strategy_computes_sum: "strategy_computes L sents ''sum''"
  by (simp add: strategy_computes_def)

section \<open>The claims\<close>

subsection \<open>C1: length of the summary\<close>

text \<open>
  C1 (amended). For a document with at least one term outside the stop words (and fewer
  than \<open>2 ^ 63\<close> sentences, the bound of a Python list), a scoring value that is \<^verbatim>\<open>'sum'\<close> or
  a metric that \<^verbatim>\<open>pdist\<close> knows and can compute on the document's count matrix, and a length
  specification that is an integer of at least 1 or a float strictly between 0 and 1, the
  specification resolves to an integer \<open>r\<close>, \<^verbatim>\<open>summarize\<close> raises nothing, and the number of
  sentences in its summary is \<open>min r (sentence count)\<close>.
\<close>

theorem summary_length:
  assumes "vocabulary L sents \<noteq> []"
    and "strategy_computes L sents scoring"
    and "case p of PyInt k \<Rightarrow> 1 \<le> k | PyFloat f \<Rightarrow> 0 < f \<and> f < 1"
    and "length sents < 2 ^ 63"
  shows "\<exists>r es. resolve p (length sents) = Inr (PyInt r)
           \<and> summary_entries L sents p scoring = Inr es
           \<and> summarize L sents p scoring = Inr (concat (map (\<lambda>e. sents ! fst e) es))
           \<and> int (length es) = min r (int (length sents))"
proof -
  obtain scores where sc: "scores_of L sents scoring = Inr scores"
    and ix: "map fst scores = [0..<length sents]"
    using scores_of_ok [OF assms(1,2)] by blast
  have len: "length scores = length sents"
    using ix by (metis length_map length_upt diff_zero)
  obtain r where r: "resolve p (length sents) = Inr (PyInt r)" "0 \<le> r"
  proof (cases p)
    case (PyInt k)
    with assms(3) that show ?thesis by (simp add: resolve_int_count)
  next
    case (PyFloat f)
    with assms(3) have "0 \<le> f" "f < 1" by simp_all
    from resolve_fraction [OF this assms(4)] PyFloat that show ?thesis by blast
  qed
  from select_length [OF r(2), of scores] obtain es where
    "select scores (PyInt r) = Inr es" "int (length es) = min r (int (length scores))"
    by blast
  with r(1) len show ?thesis
    by (simp add: summary_entries_select [OF sc r(1)] summarize_entries)
qed

theorem summary_length_witness:
  "\<exists>r es. resolve (PyInt 2) (length story) = Inr (PyInt r)
     \<and> summary_entries toy_lib story (PyInt 2) ''sum'' = Inr es
     \<and> summarize toy_lib story (PyInt 2) ''sum'' = Inr (concat (map (\<lambda>e. story ! fst e) es))
     \<and> int (length es) = min r (int (length story))"
proof -
  have v: "vocabulary toy_lib story \<noteq> []" by (simp add: toy_defs)
  have p: "case PyInt 2 of PyInt k \<Rightarrow> 1 \<le> k | PyFloat f \<Rightarrow> 0 < f \<and> f < 1" by simp
  have n: "length story < 2 ^ 63" by (simp add: story_length)
  show ?thesis by (rule summary_length [OF v strategy_computes_sum p n])
qed

text \<open>
  C1 as stated takes every positive length specification and every recognized strategy for
  valid. The float 2.5 is positive, is left as it is by lines 53-54, and is refused as a
  slice bound on line 86. A metric that \<^verbatim>\<open>pdist\<close> knows can still fail on the data.
\<close>

theorem summary_length_counterexample:
  "summary_entries toy_lib story (PyFloat (5 / 2)) ''sum'' = Inl SliceIndexNotInt
   \<and> summarize toy_lib story (PyInt 2) ''mahalanobis'' = Inl MetricError"
  by (simp add: toy_defs)

subsection \<open>C2: chronological order\<close>

text \<open>
  C2. Whenever \<^verbatim>\<open>summarize\<close> returns a summary, it is the concatenation of the sentences at
  the positions of the selected entries, these positions are strictly increasing (so each
  occurs once), and each is a position of the document.
\<close>

theorem chronological_order:
  assumes "summarize L sents p scoring = Inr out"
  shows "\<exists>es. summary_entries L sents p scoring = Inr es
           \<and> out = concat (map (\<lambda>e. sents ! fst e) es)
           \<and> sorted_wrt (<) (map fst es)
           \<and> (\<forall>e \<in> set es. fst e < length sents)"
proof -
  from assms obtain es where es: "summary_entries L sents p scoring = Inr es"
    and out: "out = concat (map (\<lambda>e. sents ! fst e) es)"
    by (auto simp: summarize_entries split: sum.splits)
  from es obtain scores q where sc: "scores_of L sents scoring = Inr scores"
    and sel: "select scores q = Inr es"
    by (auto simp: summary_entries_def split: sum.splits)
  have ix: "map fst scores = [0..<length sents]" by (rule scores_of_fst [OF sc])
  then have "distinct (map fst scores)" by simp
  then have inc: "sorted_wrt (<) (map fst es)" by (rule select_increasing [OF sel])
  have "set es \<subseteq> set scores" by (rule select_subset [OF sel])
  then have "fst ` set es \<subseteq> set (map fst scores)" by auto
  then have "\<forall>e \<in> set es. fst e < length sents" by (auto simp: ix)
  with es out inc show ?thesis by blast
qed

theorem chronological_order_witness:
  "\<exists>es. summary_entries toy_lib story (PyInt 2) ''sum'' = Inr es
     \<and> ''A cat sat.The cat and dog played.'' = concat (map (\<lambda>e. story ! fst e) es)
     \<and> sorted_wrt (<) (map fst es)
     \<and> (\<forall>e \<in> set es. fst e < length story)"
proof -
  have "summarize toy_lib story (PyInt 2) ''sum'' = Inr ''A cat sat.The cat and dog played.''"
    by (simp add: toy_defs)
  then show ?thesis by (rule chronological_order)
qed

subsection \<open>C3: the full-length summary\<close>

text \<open>
  C3 (amended). With the strategy \<^verbatim>\<open>'sum'\<close>, if the length specification resolves to the
  integer that is the sentence count, then \<^verbatim>\<open>summarize\<close> returns the concatenation of all
  sentences in document order, whatever weights the vectorizer assigns.
\<close>

theorem full_length:
  assumes "vocabulary L sents \<noteq> []"
    and "resolve p (length sents) = Inr (PyInt (int (length sents)))"
  shows "summarize L sents p ''sum'' = Inr (concat sents)"
proof -
  obtain scores where sc: "scores_of L sents ''sum'' = Inr scores"
    and ix: "map fst scores = [0..<length sents]"
    using scores_of_ok [OF assms(1) strategy_computes_sum] by blast
  have "select scores (PyInt (int (length sents))) = Inr scores"
    by (rule select_all [OF ix]) simp
  then have "summary_entries L sents p ''sum'' = Inr scores"
    by (simp add: summary_entries_select [OF sc assms(2)])
  moreover have "concat (map (\<lambda>e. sents ! fst e) scores) = concat sents"
  proof -
    have "map (\<lambda>e. sents ! fst e) scores = map ((!) sents) (map fst scores)"
      by (simp add: comp_def)
    also have "\<dots> = sents" by (simp add: ix map_nth)
    finally show ?thesis by simp
  qed
  ultimately show ?thesis by (simp add: summarize_entries)
qed

theorem full_length_witness:
  "summarize toy_lib story (PyInt 5) ''sum'' = Inr (concat story)"
proof -
  have v: "vocabulary toy_lib story \<noteq> []" by (simp add: toy_defs)
  have r: "resolve (PyInt 5) (length story) = Inr (PyInt (int (length story)))"
    by (simp add: resolve_int_count story_length)
  show ?thesis by (rule full_length [OF v r])
qed

text \<open>
  C3 as stated calls \<^verbatim>\<open>summarize(text, 1.0, "sum")\<close>. The float 1.0 is not below 1, stays a
  float, and the slice raises, also on a document of one sentence.
\<close>

theorem full_length_counterexample:
  "resolve (PyFloat 1) (length [''A cat sat.'']) = Inr (PyFloat 1)
   \<and> summarize toy_lib [''A cat sat.''] (PyFloat 1) ''sum'' = Inl SliceIndexNotInt"
  by (simp add: toy_defs)

subsection \<open>C4: unknown strategy\<close>




subsection \<open>C5: non-positive length\<close>

text \<open>
  C5 (amended). For a document with at least one term outside the stop words, a scoring
  value that is \<^verbatim>\<open>'sum'\<close> or a metric that \<^verbatim>\<open>pdist\<close> knows and can compute on the count matrix,
  and a non-positive length specification on which line 54 does not overflow,
  \<^verbatim>\<open>summarize\<close> raises nothing. The specification resolves to an integer \<open>r \<le> 0\<close>: the exact
  product for an integer specification (below \<open>2 ^ 53\<close> in magnitude), the float product
  rounded to the nearest integer, halves away from zero, for a float one. The summary has
  no sentence when \<open>r = 0\<close>; otherwise it has \<open>max 0 (n + r)\<close> of the \<open>n\<close> sentences, in
  document order, each of them ranked before every sentence left out.
\<close>

theorem non_positive_length:
  assumes "vocabulary L sents \<noteq> []"
    and "strategy_computes L sents scoring"
    and "case p of PyInt k \<Rightarrow> k \<le> 0 | PyFloat f \<Rightarrow> f \<le> 0"
    and "resolve p (length sents) = Inr q"
  shows "\<exists>r scores es. q = PyInt r \<and> r \<le> 0
           \<and> (\<forall>k. p = PyInt k \<and> \<bar>k * int (length sents)\<bar> < 2 ^ 53
                  \<longrightarrow> r = k * int (length sents))
           \<and> (\<forall>f y x. p = PyFloat f \<and> binary64 (real (length sents)) = Some y
                        \<and> binary64 (f * y) = Some x
                  \<longrightarrow> r = - \<lfloor>- x + 1 / 2\<rfloor>)
           \<and> scores_of L sents scoring = Inr scores
           \<and> summary_entries L sents p scoring = Inr es
           \<and> summarize L sents p scoring = Inr (concat (map (\<lambda>e. sents ! fst e) es))
           \<and> length es = (if r = 0 then 0 else nat (int (length sents) + r))
           \<and> set es \<subseteq> set scores
           \<and> sorted_wrt (<) (map fst es)
           \<and> (\<forall>a \<in> set es. \<forall>b \<in> set scores - set es. ranks_before a b)"
proof -
  obtain scores where sc: "scores_of L sents scoring = Inr scores"
    and ix: "map fst scores = [0..<length sents]"
    using scores_of_ok [OF assms(1,2)] by blast
  have len: "length scores = length sents"
    using ix by (metis length_map length_upt diff_zero)
  have inc: "sorted_wrt (<) (map fst scores)" by (simp add: ix strict_sorted_iff)
  obtain r where r: "q = PyInt r" "r \<le> 0"
    using resolve_non_positive [OF assms(3,4)] by blast
  have int_case: "r = k * int (length sents)"
    if "p = PyInt k \<and> \<bar>k * int (length sents)\<bar> < 2 ^ 53" for k
  proof -
    from that assms(3) have "k < 1" by simp
    moreover have "binary64 (of_int (k * int (length sents))) = Some (of_int (k * int (length sents)))"
      using that by (intro binary64_of_int) simp
    moreover have "py_int (py_round (real_of_int (k * int (length sents)))) = k * int (length sents)"
      by (simp only: py_round_of_int py_int_of_int)
    ultimately show ?thesis using that assms(4) r(1)
      by (simp add: resolve_def del: of_int_mult)
  qed
  have float_case: "r = - \<lfloor>- x + 1 / 2\<rfloor>"
    if "p = PyFloat f \<and> binary64 (real (length sents)) = Some y \<and> binary64 (f * y) = Some x"
    for f y x
  proof -
    from that assms(3) have f: "f \<le> 0" by simp
    with that assms(4) r(1) have rr: "r = py_int (py_round x)" by (simp add: resolve_def)
    have "0 \<le> y" using binary64_sign [of "real (length sents)" y] that by simp
    with f have "f * y \<le> 0" by (simp add: mult_nonpos_nonneg)
    then have "x \<le> 0" using binary64_sign [of "f * y" x] that by simp
    then show ?thesis unfolding rr py_int_py_round by (cases "x = 0") simp_all
  qed
  define m where "m = (if r = 0 then 0 else nat (int (length scores) + r))"
  define es where "es = sort (take m (sorted_by_score_reverse scores))"
  have sel: "select scores (PyInt r) = Inr es"
    using r(2) by (simp add: select_def slice_to_def es_def m_def)
  have "nat (int (length scores) + r) \<le> length scores" using r(2) by linarith
  then have "m \<le> length scores" by (simp add: m_def)
  then have count: "length es = m" by (simp add: es_def)
  have ent: "summary_entries L sents p scoring = Inr es"
    using sel r(1) by (simp add: summary_entries_def sc assms(4))
  have "set es \<subseteq> set scores" unfolding es_def by (rule prefix_subset)
  moreover have "sorted_wrt (<) (map fst es)"
    unfolding es_def by (rule prefix_increasing) (simp add: ix)
  moreover have "\<forall>a \<in> set es. \<forall>b \<in> set scores - set es. ranks_before a b"
    unfolding es_def by (rule prefix_best [OF inc])
  moreover have "summarize L sents p scoring = Inr (concat (map (\<lambda>e. sents ! fst e) es))"
    by (simp add: summarize_def ent foldl_append_concat)
  ultimately show ?thesis
    using r sc ent count len int_case float_case unfolding m_def by (intro exI conjI) auto
qed

theorem non_positive_length_witness:
  "summary_entries toy_lib story (PyFloat (- float_0_4)) ''sum'' = Inr [(0, 2), (1, 2), (2, 3)]
   \<and> (\<exists>r scores es. PyInt (- 2) = PyInt r \<and> r \<le> 0
     \<and> (\<forall>k. PyFloat (- float_0_4) = PyInt k \<and> \<bar>k * int (length story)\<bar> < 2 ^ 53
            \<longrightarrow> r = k * int (length story))
     \<and> (\<forall>f y x. PyFloat (- float_0_4) = PyFloat f \<and> binary64 (real (length story)) = Some y
                  \<and> binary64 (f * y) = Some x
            \<longrightarrow> r = - \<lfloor>- x + 1 / 2\<rfloor>)
     \<and> scores_of toy_lib story ''sum'' = Inr scores
     \<and> summary_entries toy_lib story (PyFloat (- float_0_4)) ''sum'' = Inr es
     \<and> summarize toy_lib story (PyFloat (- float_0_4)) ''sum''
         = Inr (concat (map (\<lambda>e. story ! fst e) es))
     \<and> length es = (if r = 0 then 0 else nat (int (length story) + r))
     \<and> set es \<subseteq> set scores
     \<and> sorted_wrt (<) (map fst es)
     \<and> (\<forall>a \<in> set es. \<forall>b \<in> set scores - set es. ranks_before a b))"
proof -
  have v: "vocabulary toy_lib story \<noteq> []" by (simp add: toy_defs)
  have p: "case PyFloat (- float_0_4) of PyInt k \<Rightarrow> k \<le> 0 | PyFloat f \<Rightarrow> f \<le> 0"
    by (simp add: float_0_4_def)
  have r: "resolve (PyFloat (- float_0_4)) (length story) = Inr (PyInt (- 2))"
    by (simp only: story_length resolve_minus_0_4_of_5)
  have e: "summary_entries toy_lib story (PyFloat (- float_0_4)) ''sum''
             = Inr [(0, 2), (1, 2), (2, 3)]"
    unfolding summary_entries_def r by (simp add: toy_defs)
  from e non_positive_length [OF v strategy_computes_sum p r] show ?thesis by (rule conjI)
qed

text \<open>
  C5 as stated expects an error. The length 0 gives the empty summary; the length -0.5 on
  two sentences resolves to -1 and gives one of them (here the two are the same sentence,
  so the result does not depend on the weights).
\<close>

theorem non_positive_length_counterexample:
  "summarize toy_lib story (PyInt 0) ''sum'' = Inr ''''
   \<and> resolve (PyFloat (- 1 / 2)) 2 = Inr (PyInt (- 1))
   \<and> summarize toy_lib [''A cat sat.'', ''A cat sat.''] (PyFloat (- 1 / 2)) ''sum''
       = Inr ''A cat sat.''"
proof -
  have len: "length [''A cat sat.'', ''A cat sat.''] = 2" by simp
  have "summarize toy_lib [''A cat sat.'', ''A cat sat.''] (PyFloat (- 1 / 2)) ''sum''
          = Inr ''A cat sat.''"
    unfolding summarize_def summary_entries_def len resolve_minus_half_of_2
    by (simp add: toy_defs)
  moreover have "summarize toy_lib story (PyInt 0) ''sum'' = Inr ''''"
    by (simp add: toy_defs)
  ultimately show ?thesis using resolve_minus_half_of_2 by simp
qed

subsection \<open>C6: the empty document\<close>

text \<open>
  C6. On a document without sentences \<^verbatim>\<open>summarize\<close> raises, for every length specification
  and every scoring value: the vectorizer finds an empty vocabulary.
\<close>

theorem empty_document: "summarize L [] p scoring = Inl EmptyVocabulary"
proof -
  obtain q where "resolve p (length ([] :: string list)) = Inr q"
    using resolve_empty [of p] by auto
  then show ?thesis
    by (simp add: summarize_def summary_entries_def scores_of_empty_vocabulary)
qed

theorem empty_document_witness:
  "summarize toy_lib [] (PyFloat float_0_4) ''cosine'' = Inl EmptyVocabulary"
  by (rule empty_document)

subsection \<open>C7: resolving the length specification\<close>

text \<open>
  C7 (amended). For a document of \<open>n\<close> sentences, a specification below 1 is resolved to
  its product with \<open>n\<close>, rounded to the nearest integer, halves away from zero, and
  \<^verbatim>\<open>OverflowError\<close> is raised when the product is not a finite float. For a float
  specification the product is the binary64 product with the float of \<open>n\<close> (which is \<open>n\<close>
  itself below \<open>2 ^ 53\<close>); for \<open>0 \<le> f < 1\<close> the result then lies between 0 and \<open>n\<close>. For an
  integer specification the product is the exact one, converted to a float (and unchanged by
  that below \<open>2 ^ 53\<close> in magnitude). 0.4 over 10 sentences resolves to 4, 0.3 over 5
  sentences to 2 (the float product is 1.5), and the integer 3 to 3.
  An integer specification \<open>k \<ge> 1\<close> is kept as it is and the slice keeps \<open>min k\<close> (number of
  scores) entries.
  A float specification \<open>g \<ge> 1\<close> is kept as a float, not truncated, and the slice raises.
\<close>

theorem length_resolution:
  "(f < 1 \<longrightarrow>
      (case binary64 (real n) of
         None \<Rightarrow> resolve (PyFloat f) n = Inl OverflowError
       | Some y \<Rightarrow>
           (case binary64 (f * y) of
              None \<Rightarrow> resolve (PyFloat f) n = Inl OverflowError
            | Some x \<Rightarrow>
                (\<exists>r. resolve (PyFloat f) n = Inr (PyInt r)
                   \<and> \<bar>real_of_int r - x\<bar> \<le> 1 / 2
                   \<and> (\<bar>real_of_int r - x\<bar> = 1 / 2 \<longrightarrow> \<bar>x\<bar> < \<bar>real_of_int r\<bar>)))))
   \<and> (n < 2 ^ 53 \<longrightarrow> binary64 (real n) = Some (real n))
   \<and> (0 \<le> f \<and> f < 1 \<and> n < 2 ^ 53 \<longrightarrow>
        (\<exists>r. resolve (PyFloat f) n = Inr (PyInt r) \<and> 0 \<le> r \<and> r \<le> int n))
   \<and> (j < 1 \<longrightarrow>
        (case binary64 (of_int (j * int n)) of
           None \<Rightarrow> resolve (PyInt j) n = Inl OverflowError
         | Some y \<Rightarrow>
             (\<exists>r. resolve (PyInt j) n = Inr (PyInt r)
                \<and> \<bar>real_of_int r - y\<bar> \<le> 1 / 2
                \<and> (\<bar>real_of_int r - y\<bar> = 1 / 2 \<longrightarrow> \<bar>y\<bar> < \<bar>real_of_int r\<bar>))))
   \<and> (j < 1 \<and> \<bar>j * int n\<bar> < 2 ^ 53 \<longrightarrow> resolve (PyInt j) n = Inr (PyInt (j * int n)))
   \<and> resolve (PyFloat float_0_4) 10 = Inr (PyInt 4)
   \<and> resolve (PyFloat float_0_3) 5 = Inr (PyInt 2)
   \<and> resolve (PyInt 3) 10 = Inr (PyInt 3)
   \<and> (1 \<le> k \<longrightarrow>
        resolve (PyInt k) n = Inr (PyInt k)
        \<and> (\<exists>es. select scores (PyInt k) = Inr es
              \<and> int (length es) = min k (int (length scores))))
   \<and> (1 \<le> g \<longrightarrow>
        resolve (PyFloat g) n = Inr (PyFloat g)
        \<and> select scores (PyFloat g) = Inl SliceIndexNotInt)"
proof (intro conjI impI)
  assume h: "f < 1"
  show "case binary64 (real n) of
         None \<Rightarrow> resolve (PyFloat f) n = Inl OverflowError
       | Some y \<Rightarrow>
           (case binary64 (f * y) of
              None \<Rightarrow> resolve (PyFloat f) n = Inl OverflowError
            | Some x \<Rightarrow>
                (\<exists>r. resolve (PyFloat f) n = Inr (PyInt r)
                   \<and> \<bar>real_of_int r - x\<bar> \<le> 1 / 2
                   \<and> (\<bar>real_of_int r - x\<bar> = 1 / 2 \<longrightarrow> \<bar>x\<bar> < \<bar>real_of_int r\<bar>)))"
  proof (cases "binary64 (real n)")
    case None
    with h show ?thesis by (simp add: resolve_def)
  next
    case y: (Some y)
    show ?thesis
    proof (cases "binary64 (f * y)")
      case None
      with h y show ?thesis by (simp add: resolve_def)
    next
      case (Some x)
      with h y have "resolve (PyFloat f) n = Inr (PyInt (py_int (py_round x)))"
        by (simp add: resolve_def)
      with py_int_py_round_nearest [of x] y Some show ?thesis by auto
    qed
  qed
next
  assume "n < 2 ^ 53"
  then show "binary64 (real n) = Some (real n)" by (rule binary64_of_nat)
next
  assume "0 \<le> f \<and> f < 1 \<and> n < 2 ^ 53"
  then show "\<exists>r. resolve (PyFloat f) n = Inr (PyInt r) \<and> 0 \<le> r \<and> r \<le> int n"
    by (intro resolve_fraction_range) simp_all
next
  assume h: "j < 1"
  show "case binary64 (of_int (j * int n)) of
           None \<Rightarrow> resolve (PyInt j) n = Inl OverflowError
         | Some y \<Rightarrow>
             (\<exists>r. resolve (PyInt j) n = Inr (PyInt r)
                \<and> \<bar>real_of_int r - y\<bar> \<le> 1 / 2
                \<and> (\<bar>real_of_int r - y\<bar> = 1 / 2 \<longrightarrow> \<bar>y\<bar> < \<bar>real_of_int r\<bar>))"
  proof (cases "binary64 (of_int (j * int n))")
    case None
    with h show ?thesis by (simp add: resolve_def)
  next
    case (Some y)
    with h have "resolve (PyInt j) n = Inr (PyInt (py_int (py_round y)))"
      by (simp add: resolve_def)
    with py_int_py_round_nearest [of y] Some show ?thesis by auto
  qed
next
  assume h: "j < 1 \<and> \<bar>j * int n\<bar> < 2 ^ 53"
  then have "binary64 (of_int (j * int n)) = Some (of_int (j * int n))"
    by (intro binary64_of_int) simp
  moreover have "py_int (py_round (real_of_int (j * int n))) = j * int n"
    by (simp only: py_round_of_int py_int_of_int)
  ultimately show "resolve (PyInt j) n = Inr (PyInt (j * int n))"
    using h by (simp add: resolve_def del: of_int_mult)
next
  show "resolve (PyFloat float_0_4) 10 = Inr (PyInt 4)" by (rule resolve_0_4_of_10)
next
  show "resolve (PyFloat float_0_3) 5 = Inr (PyInt 2)" by (rule resolve_0_3_of_5)
next
  show "resolve (PyInt 3) 10 = Inr (PyInt 3)" by (simp add: resolve_int_count)
next
  assume "1 \<le> k"
  then show "resolve (PyInt k) n = Inr (PyInt k)" by (rule resolve_int_count)
next
  assume "1 \<le> k"
  then have "0 \<le> k" by simp
  then show "\<exists>es. select scores (PyInt k) = Inr es
      \<and> int (length es) = min k (int (length scores))"
    by (rule select_length)
next
  assume "1 \<le> g"
  then show "resolve (PyFloat g) n = Inr (PyFloat g)" by (rule resolve_float_count)
next
  show "select scores (PyFloat g) = Inl SliceIndexNotInt" by (rule select_float)
qed

theorem length_resolution_witness:
  "(\<exists>r. resolve (PyFloat (1 / 2)) 5 = Inr (PyInt r)
       \<and> \<bar>real_of_int r - 5 / 2\<bar> \<le> 1 / 2
       \<and> (\<bar>real_of_int r - 5 / 2\<bar> = 1 / 2 \<longrightarrow> \<bar>5 / 2 :: real\<bar> < \<bar>real_of_int r\<bar>))
   \<and> binary64 (real 5) = Some (real 5)
   \<and> (\<exists>r. resolve (PyFloat (1 / 2)) 5 = Inr (PyInt r) \<and> 0 \<le> r \<and> r \<le> int 5)
   \<and> (\<exists>r. resolve (PyInt (- 2)) 5 = Inr (PyInt r)
         \<and> \<bar>real_of_int r - (- 10)\<bar> \<le> 1 / 2
         \<and> (\<bar>real_of_int r - (- 10)\<bar> = 1 / 2 \<longrightarrow> \<bar>- 10 :: real\<bar> < \<bar>real_of_int r\<bar>))
   \<and> resolve (PyInt (- 2)) 5 = Inr (PyInt (- 2 * int 5))
   \<and> resolve (PyInt 7) 5 = Inr (PyInt 7)
   \<and> (\<exists>es. select [(0, 2), (1, 2), (2, 3), (3, 1), (4, 2)] (PyInt 7) = Inr es
         \<and> int (length es) = min 7 (int (length [(0 :: nat, 2 :: real), (1, 2), (2, 3), (3, 1), (4, 2)])))
   \<and> resolve (PyFloat (5 / 2)) 5 = Inr (PyFloat (5 / 2))
   \<and> select [(0, 2), (1, 2), (2, 3), (3, 1), (4, 2)] (PyFloat (5 / 2)) = Inl SliceIndexNotInt"
proof -
  have b: "binary64 (1 / 2 * 5) = Some (5 / 2)"
    by (subst binary64_eval [where k = 1076])
       (simp_all add: tiny_def huge_def round_half_even_def)
  have bi: "binary64 (real_of_int (- 2 * int 5)) = Some (- 10)"
    using binary64_of_int [of "- 10"] by simp
  have h1: "(1 / 2 :: real) < 1" by simp
  have h2: "(5 :: nat) < 2 ^ 53" by simp
  have h3: "(0 :: real) \<le> 1 / 2 \<and> (1 / 2 :: real) < 1 \<and> (5 :: nat) < 2 ^ 53" by simp
  have h4: "(- 2 :: int) < 1" by simp
  have h5: "(- 2 :: int) < 1 \<and> \<bar>- 2 * int 5\<bar> < 2 ^ 53" by simp
  have h6: "(1 :: int) \<le> 7" by simp
  have h7: "(1 :: real) \<le> 5 / 2" by simp
  note t = length_resolution [where f = "1 / 2" and n = 5 and j = "- 2" and k = 7
      and g = "5 / 2" and scores = "[(0 :: nat, 2 :: real), (1, 2), (2, 3), (3, 1), (4, 2)]"]
  from t h1 have "case binary64 (real 5) of
         None \<Rightarrow> resolve (PyFloat (1 / 2)) 5 = Inl OverflowError
       | Some y \<Rightarrow>
           (case binary64 (1 / 2 * y) of
              None \<Rightarrow> resolve (PyFloat (1 / 2)) 5 = Inl OverflowError
            | Some x \<Rightarrow>
                (\<exists>r. resolve (PyFloat (1 / 2)) 5 = Inr (PyInt r)
                   \<and> \<bar>real_of_int r - x\<bar> \<le> 1 / 2
                   \<and> (\<bar>real_of_int r - x\<bar> = 1 / 2 \<longrightarrow> \<bar>x\<bar> < \<bar>real_of_int r\<bar>)))"
    by blast
  then have c1: "\<exists>r. resolve (PyFloat (1 / 2)) 5 = Inr (PyInt r)
       \<and> \<bar>real_of_int r - 5 / 2\<bar> \<le> 1 / 2
       \<and> (\<bar>real_of_int r - 5 / 2\<bar> = 1 / 2 \<longrightarrow> \<bar>5 / 2 :: real\<bar> < \<bar>real_of_int r\<bar>)"
    unfolding binary64_5 option.case b by simp
  from t h2 have c2: "binary64 (real 5) = Some (real 5)" by blast
  from t h3 have c3: "\<exists>r. resolve (PyFloat (1 / 2)) 5 = Inr (PyInt r) \<and> 0 \<le> r \<and> r \<le> int 5"
    by blast
  from t h4 have "case binary64 (real_of_int (- 2 * int 5)) of
           None \<Rightarrow> resolve (PyInt (- 2)) 5 = Inl OverflowError
         | Some y \<Rightarrow>
             (\<exists>r. resolve (PyInt (- 2)) 5 = Inr (PyInt r)
                \<and> \<bar>real_of_int r - y\<bar> \<le> 1 / 2
                \<and> (\<bar>real_of_int r - y\<bar> = 1 / 2 \<longrightarrow> \<bar>y\<bar> < \<bar>real_of_int r\<bar>))"
    by blast
  then have c4: "\<exists>r. resolve (PyInt (- 2)) 5 = Inr (PyInt r)
         \<and> \<bar>real_of_int r - (- 10)\<bar> \<le> 1 / 2
         \<and> (\<bar>real_of_int r - (- 10)\<bar> = 1 / 2 \<longrightarrow> \<bar>- 10 :: real\<bar> < \<bar>real_of_int r\<bar>)"
    unfolding bi option.case by simp
  from t h5 have c5: "resolve (PyInt (- 2)) 5 = Inr (PyInt (- 2 * int 5))" by blast
  from t h6 have c6: "resolve (PyInt 7) 5 = Inr (PyInt 7)
      \<and> (\<exists>es. select [(0, 2), (1, 2), (2, 3), (3, 1), (4, 2)] (PyInt 7) = Inr es
         \<and> int (length es) = min 7 (int (length [(0 :: nat, 2 :: real), (1, 2), (2, 3), (3, 1), (4, 2)])))"
    by blast
  from t h7 have c7: "resolve (PyFloat (5 / 2)) 5 = Inr (PyFloat (5 / 2))
      \<and> select [(0 :: nat, 2 :: real), (1, 2), (2, 3), (3, 1), (4, 2)] (PyFloat (5 / 2))
          = Inl SliceIndexNotInt"
    by blast
  from c1 c2 c3 c4 c5 c6 c7 show ?thesis by blast
qed

text \<open>
  C7 as stated truncates 2.5 to 2 and clamps every resolved length into \<open>[0, n]\<close>. The
  float 2.5 stays 2.5 and the slice raises; -0.4 over five sentences resolves to -2.
\<close>

theorem length_resolution_counterexample:
  "resolve (PyFloat (5 / 2)) 5 = Inr (PyFloat (5 / 2))
   \<and> summarize toy_lib story (PyFloat (5 / 2)) ''sum'' = Inl SliceIndexNotInt
   \<and> resolve (PyFloat (- float_0_4)) 5 = Inr (PyInt (- 2))"
  using resolve_minus_0_4_of_5 by (simp add: toy_defs)

subsection \<open>C8: distance scores\<close>




subsection \<open>C9: ties\<close>

text \<open>
  C9 (amended). When the scoring step returns, the ranking lists the entries by descending
  score and, among equal scores, by ascending sentence index. So if two sentences have the
  same score and the one with the larger index is in the selection, the one with the
  smaller index is in it too, whatever the length. The ranking is one of the results that
  a sort on the score alone may return; that it is the one with the lower index first is
  the stability of Python's \<^verbatim>\<open>sorted\<close>, on which the output depends.
\<close>

theorem tie_break_lower_index:
  assumes "scores_of L sents scoring = Inr scores"
  shows "sorted_wrt ranks_before (sorted_by_score_reverse scores)
         \<and> sorted_on_score scores (sorted_by_score_reverse scores)
         \<and> (\<forall>p es i j s.
               select scores p = Inr es \<and> (i, s) \<in> set scores \<and> (j, s) \<in> set es \<and> i < j
               \<longrightarrow> (i, s) \<in> set es)"
proof (intro conjI allI impI)
  let ?top = "sorted_by_score_reverse scores"
  have ix: "map fst scores = [0..<length sents]" by (rule scores_of_fst [OF assms])
  then have "sorted_wrt (<) (map fst scores)" by (simp add: strict_sorted_iff)
  then show ranked: "sorted_wrt ranks_before ?top"
    by (rule sorted_by_score_reverse_ranks)
  have "sorted_wrt score_not_below ?top"
    by (rule sorted_wrt_mono_rel [OF _ ranked])
       (auto simp: ranks_before_def score_not_below_def)
  then show "sorted_on_score scores ?top" by (simp add: sorted_on_score_def)
  fix p es i j s
  assume h: "select scores p = Inr es \<and> (i, s) \<in> set scores \<and> (j, s) \<in> set es \<and> i < j"
  then obtain m where es: "es = sort (take m ?top)"
    by (cases p) (auto simp: select_def slice_to_def split: if_splits)
  from h es have "(j, s) \<in> set (take m ?top)" by simp
  then obtain b where b: "b < length (take m ?top)" "take m ?top ! b = (j, s)"
    by (auto simp: in_set_conv_nth)
  then have b': "b < m" "b < length ?top" "?top ! b = (j, s)" by simp_all
  from h have "(i, s) \<in> set ?top"
    by (simp add: sorted_by_score_reverse_def)
  then obtain a where a: "a < length ?top" "?top ! a = (i, s)"
    by (auto simp: in_set_conv_nth)
  have "a < b"
  proof (rule ccontr)
    assume "\<not> a < b"
    moreover have "a \<noteq> b" using a(2) b'(3) h by auto
    ultimately have "b < a" by simp
    with ranked a(1) have "ranks_before (?top ! b) (?top ! a)"
      by (simp add: sorted_wrt_iff_nth_less)
    with a(2) b'(3) h show False by (simp add: ranks_before_def)
  qed
  with b'(1) a have "a < length (take m ?top)" "take m ?top ! a = (i, s)" by simp_all
  then have "(i, s) \<in> set (take m ?top)" by (metis nth_mem)
  then show "(i, s) \<in> set es" by (simp add: es)
qed

theorem tie_break_lower_index_witness:
  "sorted_by_score_reverse [(0, 2), (1, 2), (2, 3), (3, 1), (4, 2)]
     = [(2, 3), (0, 2), (1, 2), (4, 2), (3, 1)]
   \<and> select [(0, 2), (1, 2), (2, 3), (3, 1), (4, 2)] (PyInt 2) = Inr [(0, 2), (2, 3)]
   \<and> sorted_wrt ranks_before (sorted_by_score_reverse [(0, 2), (1, 2), (2, 3), (3, 1), (4, 2)])
   \<and> sorted_on_score [(0, 2), (1, 2), (2, 3), (3, 1), (4, 2)]
        (sorted_by_score_reverse [(0, 2), (1, 2), (2, 3), (3, 1), (4, 2)])
   \<and> (1, 2) \<in> set [(0, 2), (1, 2), (2, 3), (4, 2)]"
proof -
  let ?S = "[(0 :: nat, 2 :: real), (1, 2), (2, 3), (3, 1), (4, 2)]"
  let ?E = "[(0 :: nat, 2 :: real), (1, 2), (2, 3), (4, 2)]"
  have s: "scores_of toy_lib story ''sum'' = Inr ?S"
    by (simp add: toy_defs)
  have e: "sorted_by_score_reverse ?S = [(2, 3), (0, 2), (1, 2), (4, 2), (3, 1)]"
    "select ?S (PyInt 2) = Inr [(0, 2), (2, 3)]"
    by (simp_all add: toy_defs)
  have sel: "select ?S (PyInt 4) = Inr ?E"
    by (simp add: toy_defs)
  note t = tie_break_lower_index [OF s]
  have ranked: "sorted_wrt ranks_before (sorted_by_score_reverse ?S)"
    by (rule conjunct1 [OF t])
  have keyed: "sorted_on_score ?S (sorted_by_score_reverse ?S)"
    by (rule conjunct1 [OF conjunct2 [OF t]])
  have "(1, 2) \<in> set ?E"
    by (rule conjunct2 [OF conjunct2 [OF t], rule_format,
          where p = "PyInt 4" and j = 4], intro conjI, rule sel)
      simp_all
  with e ranked keyed show ?thesis by simp
qed

text \<open>
  C9 as stated makes the output independent of the stability of the platform's sort. Line 85
  sorts on the score alone. Two sentences without a common term are at cosine distance 1
  from each other, so both score 1/2; the order with sentence 1 first is also sorted on that
  key, and its first entry is sentence 1, where the code, through the stable sort, returns
  sentence 0.
\<close>

theorem tie_break_lower_index_counterexample:
  "scores_of toy_lib [''It was sunny.'', ''A cat sat.''] ''cosine'' = Inr [(0, 1 / 2), (1, 1 / 2)]
   \<and> sorted_on_score [(0, 1 / 2), (1, 1 / 2)] [(1, 1 / 2), (0, 1 / 2)]
   \<and> take 1 [(1 :: nat, 1 / 2 :: real), (0, 1 / 2)] = [(1, 1 / 2)]
   \<and> sorted_by_score_reverse [(0, 1 / 2), (1, 1 / 2)] = [(0, 1 / 2), (1, 1 / 2)]
   \<and> summarize toy_lib [''It was sunny.'', ''A cat sat.''] (PyInt 1) ''cosine''
       = Inr ''It was sunny.''"
proof -
  have "mset [(1 :: nat, 1 / 2 :: real), (0, 1 / 2)] = mset [(0, 1 / 2), (1, 1 / 2)]"
    by (simp add: add_mset_commute)
  then have "sorted_on_score [(0 :: nat, 1 / 2 :: real), (1, 1 / 2)] [(1, 1 / 2), (0, 1 / 2)]"
    by (simp add: sorted_on_score_def score_not_below_def)
  then show ?thesis by (simp add: toy_defs)
qed

subsection \<open>C10: a fraction that resolves to zero\<close>

text \<open>
  C10 (amended). For a document with at least one term outside the stop words and a scoring
  value that is \<^verbatim>\<open>'sum'\<close> or a metric that \<^verbatim>\<open>pdist\<close> knows and can compute on the count matrix,
  a float strictly between 0 and 1 that line 54 resolves to 0 (its float product with the
  sentence count rounds to 0) raises nothing: \<^verbatim>\<open>summarize\<close> returns the empty string.
\<close>

theorem zero_length_summary:
  assumes "vocabulary L sents \<noteq> []"
    and "strategy_computes L sents scoring"
    and "0 < f" and "f < 1"
    and "resolve (PyFloat f) (length sents) = Inr (PyInt 0)"
  shows "summarize L sents (PyFloat f) scoring = Inr ''''"
proof -
  obtain scores where sc: "scores_of L sents scoring = Inr scores"
    using scores_of_ok [OF assms(1,2)] by blast
  have "summary_entries L sents (PyFloat f) scoring = Inr []"
    by (simp add: summary_entries_select [OF sc assms(5)] select_def slice_to_def)
  then show ?thesis by (simp add: summarize_def)
qed

theorem zero_length_summary_witness:
  "summarize toy_lib story (PyFloat float_0_05) ''cosine'' = Inr ''''"
proof -
  have v: "vocabulary toy_lib story \<noteq> []" by (simp add: toy_defs)
  have s: "strategy_computes toy_lib story ''cosine''" by (simp add: toy_defs)
  have f: "0 < float_0_05" "float_0_05 < 1" by (simp_all add: float_0_05_def)
  have r: "resolve (PyFloat float_0_05) (length story) = Inr (PyInt 0)"
    by (simp only: story_length resolve_0_05_of_5)
  show ?thesis by (rule zero_length_summary [OF v s f r])
qed

text \<open>
  C10 as stated holds for every document with at least one sentence. A document of one
  sentence made of stop words has an empty vocabulary, and the vectorizer raises; a metric
  that \<^verbatim>\<open>pdist\<close> knows can fail on the data.
\<close>

theorem zero_length_summary_counterexample:
  "resolve (PyFloat float_0_1) 1 = Inr (PyInt 0)
   \<and> summarize toy_lib [''It is.''] (PyFloat float_0_1) ''sum'' = Inl EmptyVocabulary
   \<and> resolve (PyFloat float_0_05) 5 = Inr (PyInt 0)
   \<and> summarize toy_lib story (PyFloat float_0_05) ''mahalanobis'' = Inl MetricError"
proof -
  have len: "length [''It is.''] = 1" by simp
  have a: "summarize toy_lib [''It is.''] (PyFloat float_0_1) ''sum'' = Inl EmptyVocabulary"
    unfolding summarize_def summary_entries_def len resolve_0_1_of_1
    by (simp add: toy_defs)
  have b: "summarize toy_lib story (PyFloat float_0_05) ''mahalanobis'' = Inl MetricError"
    unfolding summarize_def summary_entries_def story_length resolve_0_05_of_5
    by (simp add: toy_defs)
  from a b resolve_0_1_of_1 resolve_0_05_of_5 show ?thesis by simp
qed

end
